theory Spec2Isabelle
  imports Complex_Main "HOL-Library.Multiset" "HOL-Library.Product_Lexorder" "HOL-Library.AList"
begin

section \<open>The Count-Min sketch of count\_min\_sketch.py\<close>

text \<open>
  The theory embeds the class \<^verbatim>\<open>CountMinSketch\<close> and its subclass
  \<^verbatim>\<open>CountMinSketchUsingEpsAndDelta\<close>. Python integers are \<open>int\<close>; every
  \<^verbatim>\<open>raise\<close> is a value of \<open>error\<close>. A method that mutates the object returns
  \<open>Inr s'\<close> when it returns normally and \<open>Inl (e, s')\<close> when it raises \<open>e\<close>, where
  \<open>s'\<close> is the object as the raise leaves it (Python does not roll back).
\<close>

datatype error =
  ValueError | TypeError | IndexError | KeyError | OverflowError | ZeroDivisionError

subsection \<open>The object\<close>

text \<open>
  The attributes \<^verbatim>\<open>_w _d _k _n _heap _top_k _tables\<close> keep their names behind the
  prefix \<open>sk\<close>. The float attributes \<^verbatim>\<open>_eps\<close> and \<^verbatim>\<open>_delta\<close> are left out: no
  operation modelled here reads them; the exceptions their computation can raise are
  branches of the constructor.

  A heap entry is the two-element list \<^verbatim>\<open>[estimate, item]\<close>. The same list object
  is stored in \<^verbatim>\<open>_heap\<close> and as the value of \<^verbatim>\<open>_top_k[item]\<close>, and
  \<^verbatim>\<open>top_k[item][0] = estimate\<close> writes through that sharing. So the entries live
  in an explicit store \<open>objs\<close>, addressed by position; \<open>sk_heap\<close> is a list of
  addresses and \<open>sk_top_k\<close> an insertion-ordered dictionary from items to addresses.
  Allocation appends to the store; nothing is ever freed (garbage is unobservable).
  Items are of one totally ordered type (such as \<^verbatim>\<open>str\<close>), as the comparison of heap
  entries with equal estimates needs.
\<close>

record 'a sketch =
  sk_w :: int
  sk_d :: int
  sk_k :: int
  sk_n :: int
  sk_heap :: "nat list"
  sk_top_k :: "('a \<times> nat) list"
  sk_tables :: "int list list"
  objs :: "(int \<times> 'a) list"

subsection \<open>Library behaviour the class relies on\<close>

text \<open>
  Converting an integer to a float raises OverflowError from \<open>2^1024 - 2^970\<close> on
  (the first integer that rounds to \<open>2^1024\<close>).
\<close>

definition float_overflow :: "int \<Rightarrow> bool" where
  "float_overflow x = (2 ^ 1024 - 2 ^ 970 \<le> \<bar>x\<bar>)"

text \<open>
  An \<^verbatim>\<open>array.array('l')\<close> cell holds a C long, of 64 bits on Linux and macOS;
  storing anything else raises OverflowError.
\<close>

definition fits_long :: "int \<Rightarrow> bool" where
  "fits_long v = (- (2 ^ 63) \<le> v \<and> v < 2 ^ 63)"

text \<open>Indexing a sequence of length \<open>len\<close>: a negative index counts from the end.\<close>

definition py_index :: "nat \<Rightarrow> int \<Rightarrow> nat option" where
  "py_index len idx =
     (if 0 \<le> idx \<and> idx < int len then Some (nat idx)
      else if - int len \<le> idx \<and> idx < 0 then Some (nat (int len + idx))
      else None)"

subsubsection \<open>heapq\<close>

text \<open>
  The functions of CPython's \<^verbatim>\<open>heapq.py\<close> that the class calls, on a list of heap
  elements that are compared through \<open>key\<close>. For the sketch an element is the address
  of an entry and its key is the entry stored there; Python compares two lists
  \<^verbatim>\<open>[estimate, item]\<close> lexicographically, which is the order of pairs used here.
  The \<^verbatim>\<open>while\<close> loops are the two \<open>_loop\<close> functions. (The proofs about the
  sketch use of these functions only that they keep the elements of the list and leave
  it in heap order, which is all that \<^verbatim>\<open>heapq\<close> promises.)
\<close>

function siftdown_loop :: "('b \<Rightarrow> 'k::linorder) \<Rightarrow> 'b list \<Rightarrow> nat \<Rightarrow> 'b \<Rightarrow> nat \<Rightarrow> 'b list" where
  "siftdown_loop key hp startpos newitem pos =
     (if startpos < pos then
        (let parentpos = (pos - 1) div 2;
             parent = hp ! parentpos
         in if key newitem < key parent
            then siftdown_loop key (hp[pos := parent]) startpos newitem parentpos
            else hp[pos := newitem])
      else hp[pos := newitem])"
  by pat_completeness auto
termination
  by (relation "measure (\<lambda>(key, hp, startpos, newitem, pos). pos)") auto

declare siftdown_loop.simps [simp del]

definition siftdown :: "('b \<Rightarrow> 'k::linorder) \<Rightarrow> 'b list \<Rightarrow> nat \<Rightarrow> nat \<Rightarrow> 'b list" where
  "siftdown key hp startpos pos = siftdown_loop key hp startpos (hp ! pos) pos"

function siftup_loop :: "('b \<Rightarrow> 'k::linorder) \<Rightarrow> 'b list \<Rightarrow> nat \<Rightarrow> nat \<Rightarrow> 'b list \<times> nat" where
  "siftup_loop key hp endpos pos =
     (let childpos = 2 * pos + 1 in
      if childpos < endpos then
        (let rightpos = childpos + 1;
             childpos = (if rightpos < endpos \<and> \<not> key (hp ! childpos) < key (hp ! rightpos)
                         then rightpos else childpos)
         in siftup_loop key (hp[pos := hp ! childpos]) endpos childpos)
      else (hp, pos))"
  by pat_completeness auto
termination
  by (relation "measure (\<lambda>(key, hp, endpos, pos). endpos - pos)") (auto simp: Let_def)

declare siftup_loop.simps [simp del]

definition siftup :: "('b \<Rightarrow> 'k::linorder) \<Rightarrow> 'b list \<Rightarrow> nat \<Rightarrow> 'b list" where
  "siftup key hp pos =
     (let newitem = hp ! pos;
          (hp1, pos1) = siftup_loop key hp (length hp) pos
      in siftdown key (hp1[pos1 := newitem]) pos pos1)"

definition heapify :: "('b \<Rightarrow> 'k::linorder) \<Rightarrow> 'b list \<Rightarrow> 'b list" where
  "heapify key x = foldl (\<lambda>hp i. siftup key hp i) x (rev [0..<length x div 2])"

definition heappush :: "('b \<Rightarrow> 'k::linorder) \<Rightarrow> 'b list \<Rightarrow> 'b \<Rightarrow> 'b list" where
  "heappush key hp item = siftdown key (hp @ [item]) 0 (length hp)"

text \<open>\<open>heappushpop\<close> returns the element it hands back and the heap it leaves.\<close>

definition heappushpop :: "('b \<Rightarrow> 'k::linorder) \<Rightarrow> 'b list \<Rightarrow> 'b \<Rightarrow> 'b \<times> 'b list" where
  "heappushpop key hp item =
     (if hp \<noteq> [] \<and> key (hp ! 0) < key item
      then (hp ! 0, siftup key (hp[0 := item]) 0)
      else (item, hp))"

subsubsection \<open>copy.deepcopy of the dictionary\<close>

text \<open>
  Each value is copied into a fresh list object; the memo table maps an object already
  copied to its copy. Keys and the contents of an entry are immutable and shared.
\<close>

fun deepcopy_items ::
  "(int \<times> 'a) list \<Rightarrow> (nat \<times> nat) list \<Rightarrow> ('a \<times> nat) list \<Rightarrow> ('a \<times> nat) list \<times> (int \<times> 'a) list" where
  "deepcopy_items os memo [] = ([], os)"
| "deepcopy_items os memo ((item, a) # rest) =
     (case map_of memo a of
        Some b \<Rightarrow>
          (let (r, os') = deepcopy_items os memo rest in ((item, b) # r, os'))
      | None \<Rightarrow>
          (let b = length os;
               (r, os') = deepcopy_items (os @ [os ! a]) ((a, b) # memo) rest
           in ((item, b) # r, os')))"

subsection \<open>Construction\<close>

text \<open>
  \<^verbatim>\<open>if not w or not d: raise ValueError\<close>: the guard is on zero only. Then
  \<^verbatim>\<open>2.0 / w\<close> converts \<open>w\<close> to a float, \<^verbatim>\<open>math.pow(2, d)\<close> raises
  OverflowError from \<open>d = 1024\<close> on and is \<open>0.0\<close> from \<open>d = -1075\<close> down, where
  \<^verbatim>\<open>1.0 / 0.0\<close> raises ZeroDivisionError. \<^verbatim>\<open>range\<close> of a negative number is
  empty. A constructor that raises returns no object.
\<close>

definition CountMinSketch_init :: "int \<Rightarrow> int \<Rightarrow> int \<Rightarrow> error + 'a sketch" where
  "CountMinSketch_init w d k =
     (if w = 0 \<or> d = 0 then Inl ValueError
      else if float_overflow w then Inl OverflowError
      else if float_overflow d \<or> 1024 \<le> d then Inl OverflowError
      else if d \<le> - 1075 then Inl ZeroDivisionError
      else Inr \<lparr> sk_w = w, sk_d = d, sk_k = k, sk_n = 0, sk_heap = [], sk_top_k = [],
                 sk_tables = replicate (nat d) (replicate (nat w) 0), objs = [] \<rparr>)"

text \<open>
  The subclass. Floats are read as reals here. \<^verbatim>\<open>1 / eps\<close> raises on zero. A
  quotient whose exact value reaches \<open>2^1024 - 2^970\<close> is the float \<^verbatim>\<open>inf\<close>, and
  \<^verbatim>\<open>math.ceil\<close> of it raises OverflowError. \<^verbatim>\<open>math.log\<close> takes positional
  arguments only, so a call that passes a keyword raises TypeError before anything is
  computed. The function is given the positional and the keyword arguments of the call.
\<close>

definition float_inf :: "real \<Rightarrow> bool" where
  "float_inf x = (2 ^ 1024 - 2 ^ 970 \<le> \<bar>x\<bar>)"

definition math_log :: "real list \<Rightarrow> (string \<times> real) list \<Rightarrow> error + real" where
  "math_log args kwargs =
     (if kwargs \<noteq> [] then Inl TypeError
      else case args of
        [x] \<Rightarrow> if x \<le> 0 then Inl ValueError else Inr (ln x)
      | [x, b] \<Rightarrow>
          if x \<le> 0 \<or> b \<le> 0 then Inl ValueError
          else if b = 1 then Inl ZeroDivisionError
          else Inr (ln x / ln b)
      | _ \<Rightarrow> Inl TypeError)"

definition CountMinSketchUsingEpsAndDelta_init :: "real \<Rightarrow> real \<Rightarrow> error + 'a sketch" where
  "CountMinSketchUsingEpsAndDelta_init eps delta =
     (if eps = 0 then Inl ZeroDivisionError
      else if float_inf (1 / eps) then Inl OverflowError
      else
        (let w = \<lceil>1 / eps\<rceil> in
         case math_log [1 - delta] [(''base'', 1 / 2)] of
           Inl e \<Rightarrow> Inl e
         | Inr l \<Rightarrow> (let d = \<lceil>l\<rceil> in CountMinSketch_init w d 10)))"

subsection \<open>Hashing, estimate, update\<close>

text \<open>
  \<open>h item i\<close> stands for \<^verbatim>\<open>int(md5.hexdigest(), 16)\<close> after the digest of
  \<^verbatim>\<open>str(hash(item))\<close> has been fed \<^verbatim>\<open>str(0)\<close> \<dots> \<^verbatim>\<open>str(i)\<close>: a natural number
  that depends on the item and the row only. It is a parameter of the model. Python's
  \<^verbatim>\<open>%\<close> takes the sign of the divisor, as \<open>mod\<close> on \<open>int\<close> does.
\<close>

definition hash :: "('a \<Rightarrow> nat \<Rightarrow> nat) \<Rightarrow> 'a sketch \<Rightarrow> 'a \<Rightarrow> int list" where
  "hash h s item = map (\<lambda>i. int (h item i) mod sk_w s) [0..<nat (sk_d s)]"

text \<open>
  The generator is consumed by \<^verbatim>\<open>zip\<close> after a table has been taken; with a zero
  width its first value raises ZeroDivisionError.
\<close>

definition hash_raises :: "'a sketch \<Rightarrow> bool" where
  "hash_raises s = (sk_w s = 0 \<and> sk_tables s \<noteq> [] \<and> 0 < sk_d s)"

fun read_rows :: "int list list \<Rightarrow> int list \<Rightarrow> error + int list" where
  "read_rows [] idxs = Inr []"
| "read_rows (row # rows) [] = Inr []"
| "read_rows (row # rows) (idx # idxs) =
     (case py_index (length row) idx of
        None \<Rightarrow> Inl IndexError
      | Some j \<Rightarrow>
          (case read_rows rows idxs of
             Inl e \<Rightarrow> Inl e
           | Inr vs \<Rightarrow> Inr (row ! j # vs)))"

definition estimate :: "('a \<Rightarrow> nat \<Rightarrow> nat) \<Rightarrow> 'a sketch \<Rightarrow> 'a \<Rightarrow> error + int" where
  "estimate h s item =
     (if hash_raises s then Inl ZeroDivisionError
      else case read_rows (sk_tables s) (hash h s item) of
        Inl e \<Rightarrow> Inl e
      | Inr [] \<Rightarrow> Inl ValueError
      | Inr (v # vs) \<Rightarrow> Inr (foldl min v vs))"

text \<open>
  The loop \<^verbatim>\<open>for table, idx in zip(...): table[idx] += count\<close>. It returns the
  tables as the loop leaves them and the exception that stopped it, if any.
\<close>

fun add_rows :: "int \<Rightarrow> int list list \<Rightarrow> int list \<Rightarrow> error option \<times> int list list" where
  "add_rows c [] idxs = (None, [])"
| "add_rows c (row # rows) [] = (None, row # rows)"
| "add_rows c (row # rows) (idx # idxs) =
     (case py_index (length row) idx of
        None \<Rightarrow> (Some IndexError, row # rows)
      | Some j \<Rightarrow>
          if fits_long (row ! j + c)
          then (let (e, rows') = add_rows c rows idxs in (e, row[j := row ! j + c] # rows'))
          else (Some OverflowError, row # rows))"

definition entry_key :: "'a sketch \<Rightarrow> nat \<Rightarrow> int \<times> 'a" where
  "entry_key s a = objs s ! a"

definition update_heap ::
  "('a::linorder \<Rightarrow> nat \<Rightarrow> nat) \<Rightarrow> 'a sketch \<Rightarrow> 'a \<Rightarrow> (error \<times> 'a sketch) + 'a sketch" where
  "update_heap h s item =
     (case estimate h s item of
        Inl e \<Rightarrow> Inl (e, s)
      | Inr est \<Rightarrow>
          (case map_of (sk_top_k s) item of
             Some a \<Rightarrow>
               (let s1 = s\<lparr>objs := (objs s)[a := (est, snd (objs s ! a))]\<rparr>
                in Inr (s1\<lparr>sk_heap := heapify (entry_key s1) (sk_heap s1)\<rparr>))
           | None \<Rightarrow>
               (let pair = length (objs s);
                    s1 = s\<lparr>objs := objs s @ [(est, item)]\<rparr>
                in if int (length (sk_heap s1)) < sk_k s1 then
                     Inr (s1\<lparr>sk_top_k := AList.update item pair (sk_top_k s1),
                              sk_heap := heappush (entry_key s1) (sk_heap s1) pair\<rparr>)
                   else if sk_heap s1 = [] then Inl (IndexError, s1)
                   else if est \<le> fst (objs s1 ! (sk_heap s1 ! 0)) then Inr s1
                   else
                     (let (rmv, hp) = heappushpop (entry_key s1) (sk_heap s1) pair;
                          rmv_item = snd (objs s1 ! rmv);
                          s2 = s1\<lparr>sk_heap := hp\<rparr>
                      in case map_of (sk_top_k s2) rmv_item of
                           None \<Rightarrow> Inl (KeyError, s2)
                         | Some _ \<Rightarrow>
                             Inr (s2\<lparr>sk_top_k :=
                                    AList.update item pair (AList.delete rmv_item (sk_top_k s2))\<rparr>)))))"

definition update ::
  "('a::linorder \<Rightarrow> nat \<Rightarrow> nat) \<Rightarrow> 'a sketch \<Rightarrow> 'a \<Rightarrow> int \<Rightarrow> (error \<times> 'a sketch) + 'a sketch" where
  "update h s item cnt =
     (if cnt < 0 then Inl (ValueError, s)
      else
        (let s1 = s\<lparr>sk_n := sk_n s + cnt\<rparr> in
         if hash_raises s1 then Inl (ZeroDivisionError, s1)
         else case add_rows cnt (sk_tables s1) (hash h s1 item) of
           (Some e, ts) \<Rightarrow> Inl (e, s1\<lparr>sk_tables := ts\<rparr>)
         | (None, ts) \<Rightarrow> update_heap h (s1\<lparr>sk_tables := ts\<rparr>) item))"

subsection \<open>Queries\<close>

text \<open>
  \<open>heavyHitters\<close> returns the new dictionary (items to the addresses of the copied
  entries) and the state, whose store now holds the copies.
\<close>

definition heavyHitters :: "'a sketch \<Rightarrow> ('a \<times> nat) list \<times> 'a sketch" where
  "heavyHitters s =
     (let (r, os) = deepcopy_items (objs s) [] (sk_top_k s) in (r, s\<lparr>objs := os\<rparr>))"

text \<open>
  \<^verbatim>\<open>raise NotImplemented('...')\<close>: \<^verbatim>\<open>NotImplemented\<close> is the constant, not the
  exception class \<^verbatim>\<open>NotImplementedError\<close>, and calling it raises TypeError
  (\<^verbatim>\<open>'NotImplementedType' object is not callable\<close>).
\<close>

definition merge :: "'a sketch \<Rightarrow> 'b \<Rightarrow> (error \<times> 'a sketch) + unit" where
  "merge s count_min_sketch = Inl (TypeError, s)"

definition totalCount :: "'a sketch \<Rightarrow> int" where
  "totalCount s = sk_n s"

subsection \<open>Vocabulary of the statements\<close>

text \<open>
  \<open>table_shape\<close> says that the sketch has positive width and depth and the table the
  constructor builds for them: \<open>sk_d\<close> rows of \<open>sk_w\<close> counters. \<open>col h s item r\<close>
  is the column of \<open>item\<close> in row \<open>r\<close>, and \<open>counters h s item\<close> are the \<open>sk_d\<close>
  counters of \<open>item\<close>, one per row.
\<close>

definition table_shape :: "'a sketch \<Rightarrow> bool" where
  "table_shape s =
     (0 < sk_w s \<and> 0 < sk_d s \<and> length (sk_tables s) = nat (sk_d s)
      \<and> (\<forall>row \<in> set (sk_tables s). length row = nat (sk_w s)))"

definition col :: "('a \<Rightarrow> nat \<Rightarrow> nat) \<Rightarrow> 'a sketch \<Rightarrow> 'a \<Rightarrow> nat \<Rightarrow> nat" where
  "col h s item r = nat (int (h item r) mod sk_w s)"

definition counters :: "('a \<Rightarrow> nat \<Rightarrow> nat) \<Rightarrow> 'a sketch \<Rightarrow> 'a \<Rightarrow> int list" where
  "counters h s item = map (\<lambda>r. sk_tables s ! r ! col h s item r) [0..<nat (sk_d s)]"

text \<open>
  A sequence of calls of \<open>update\<close>, stopped by the first call that raises, and the
  true frequency of an item in such a sequence: the sum of the counts passed for it.
\<close>

fun updates ::
  "('a::linorder \<Rightarrow> nat \<Rightarrow> nat) \<Rightarrow> 'a sketch \<Rightarrow> ('a \<times> int) list \<Rightarrow> (error \<times> 'a sketch) + 'a sketch" where
  "updates h s [] = Inr s"
| "updates h s ((item, cnt) # calls) =
     (case update h s item cnt of
        Inl e \<Rightarrow> Inl e
      | Inr s' \<Rightarrow> updates h s' calls)"


subsection \<open>Vocabulary of the heap proofs\<close>

text \<open>
  \<open>heap_from key hp m\<close>: every element of \<open>hp\<close> whose parent sits at index \<open>m\<close> or
  later is not smaller than that parent; \<open>is_heap\<close> is the invariant of \<^verbatim>\<open>heapq\<close>.
  \<open>hole_inv\<close> is the invariant of the two sifting loops, which move a hole at \<open>pos\<close>:
  the order holds on every edge that does not touch the hole, and the children of the
  hole are not smaller than its parent. \<open>below_hole\<close> says that the element to be
  placed is not larger than the children of the hole. \<open>desc m p\<close>: position \<open>p\<close> lies
  in the subtree rooted at \<open>m\<close>.
\<close>

definition heap_from :: "('b \<Rightarrow> 'k::linorder) \<Rightarrow> 'b list \<Rightarrow> nat \<Rightarrow> bool" where
  "heap_from key hp m =
     (\<forall>j \<in> {1..<length hp}. m \<le> (j - 1) div 2 \<longrightarrow> key (hp ! ((j - 1) div 2)) \<le> key (hp ! j))"

definition is_heap :: "('b \<Rightarrow> 'k::linorder) \<Rightarrow> 'b list \<Rightarrow> bool" where
  "is_heap key hp = heap_from key hp 0"

definition hole_inv :: "('b \<Rightarrow> 'k::linorder) \<Rightarrow> 'b list \<Rightarrow> nat \<Rightarrow> nat \<Rightarrow> bool" where
  "hole_inv key hp m pos =
     ((\<forall>j < length hp. 0 < j \<longrightarrow> m \<le> (j - 1) div 2 \<longrightarrow> j \<noteq> pos \<longrightarrow> (j - 1) div 2 \<noteq> pos \<longrightarrow>
          key (hp ! ((j - 1) div 2)) \<le> key (hp ! j))
      \<and> (\<forall>j < length hp. 0 < j \<longrightarrow> (j - 1) div 2 = pos \<longrightarrow> 0 < pos \<longrightarrow> m \<le> (pos - 1) div 2 \<longrightarrow>
          key (hp ! ((pos - 1) div 2)) \<le> key (hp ! j)))"

definition below_hole :: "('b \<Rightarrow> 'k::linorder) \<Rightarrow> 'b list \<Rightarrow> nat \<Rightarrow> 'b \<Rightarrow> bool" where
  "below_hole key hp pos x =
     (\<forall>j < length hp. 0 < j \<longrightarrow> (j - 1) div 2 = pos \<longrightarrow> key x \<le> key (hp ! j))"

inductive desc :: "nat \<Rightarrow> nat \<Rightarrow> bool" for m :: nat where
  desc_self: "desc m m"
| desc_left: "desc m p \<Longrightarrow> desc m (2 * p + 1)"
| desc_right: "desc m p \<Longrightarrow> desc m (2 * p + 2)"

subsection \<open>Vocabulary of the tracker statements\<close>

text \<open>
  \<open>heap_entries s\<close> are the entries \<^verbatim>\<open>[estimate, item]\<close> in the order of
  \<^verbatim>\<open>_heap\<close>, and \<open>tracked s\<close> is what a reader of \<^verbatim>\<open>_top_k\<close> sees: each
  tracked item with the estimate stored for it. \<open>tracker_inv\<close> is the invariant of
  the tracker: no address occurs twice in the heap and no key twice in the dictionary;
  the dictionary sends a key to an allocated entry of the heap that carries that key;
  every entry of the heap is the value of its own item; the heap is a heap for the
  order of the entries; and it holds at most \<open>sk_k\<close> entries.
\<close>

definition heap_entries :: "'a sketch \<Rightarrow> (int \<times> 'a) list" where
  "heap_entries s = map (\<lambda>a. objs s ! a) (sk_heap s)"

definition tracked :: "'a sketch \<Rightarrow> ('a \<times> int) list" where
  "tracked s = map (\<lambda>(item, a). (item, fst (objs s ! a))) (sk_top_k s)"

definition tracker_inv :: "'a::linorder sketch \<Rightarrow> bool" where
  "tracker_inv s =
     (distinct (sk_heap s) \<and> distinct (map fst (sk_top_k s))
      \<and> (\<forall>item a. map_of (sk_top_k s) item = Some a \<longrightarrow>
            a \<in> set (sk_heap s) \<and> a < length (objs s) \<and> snd (objs s ! a) = item)
      \<and> (\<forall>a \<in> set (sk_heap s). map_of (sk_top_k s) (snd (objs s ! a)) = Some a)
      \<and> is_heap (entry_key s) (sk_heap s)
      \<and> length (sk_heap s) \<le> nat (sk_k s))"

subsection \<open>Vocabulary of the snapshot statements\<close>

text \<open>
  \<open>deref os d\<close> reads a dictionary of addresses through the store: each key with the
  entry its value points to. \<open>mutate ws s\<close> is what a client can do to the state
  through a dictionary it was handed: a sequence of writes \<open>(a, v)\<close>, each replacing
  the entry at address \<open>a\<close>. (Changing the returned dictionary itself changes a value
  the sketch holds no reference to.)
\<close>

definition deref :: "(int \<times> 'a) list \<Rightarrow> ('a \<times> nat) list \<Rightarrow> ('a \<times> (int \<times> 'a)) list" where
  "deref os d = map (\<lambda>(item, a). (item, os ! a)) d"

definition mutate :: "(nat \<times> (int \<times> 'a)) list \<Rightarrow> 'a sketch \<Rightarrow> 'a sketch" where
  "mutate ws s = s\<lparr>objs := foldl (\<lambda>os (a, v). os[a := v]) (objs s) ws\<rparr>"

section \<open>Construction\<close>

text \<open>
  C1, for the guard the constructor has. The constructor raises ValueError exactly when
  the width or the depth is zero; it raises before any object exists. A negative width
  or depth is not caught by this guard.
\<close>

theorem CountMinSketch_init_ValueError:
  "((CountMinSketch_init w d k :: error + 'a sketch) = Inl ValueError) = (w = 0 \<or> d = 0)"
  by (simp add: CountMinSketch_init_def)

theorem CountMinSketch_init_ValueError_witness:
  "(CountMinSketch_init 0 5 10 :: error + string sketch) = Inl ValueError
   \<and> (CountMinSketch_init 5 0 10 :: error + string sketch) = Inl ValueError
   \<and> (CountMinSketch_init (- 1) 3 10 :: error + string sketch) \<noteq> Inl ValueError"
  using CountMinSketch_init_ValueError [of 0 5 10, where 'a = string]
    CountMinSketch_init_ValueError [of 5 0 10, where 'a = string]
    CountMinSketch_init_ValueError [of "- 1" 3 10, where 'a = string]
  by simp

text \<open>
  C1 as stated fails: \<^verbatim>\<open>CountMinSketch(-1, 3)\<close> returns a sketch, with three empty rows.
\<close>

theorem CountMinSketch_init_negative_width_counterexample:
  "(CountMinSketch_init (- 1) 3 10 :: error + string sketch) =
     Inr \<lparr> sk_w = - 1, sk_d = 3, sk_k = 10, sk_n = 0, sk_heap = [], sk_top_k = [],
           sk_tables = [[], [], []], objs = [] \<rparr>"
  by (simp add: CountMinSketch_init_def float_overflow_def numeral_3_eq_3)

text \<open>
  C2. With \<open>eps = 1/10\<close> and \<open>delta = 1/2\<close> the subclass constructor raises TypeError
  at \<^verbatim>\<open>math.log(1 - delta, base=0.5)\<close> and returns no sketch.
\<close>

theorem CountMinSketchUsingEpsAndDelta_init_raises:
  "(CountMinSketchUsingEpsAndDelta_init (1 / 10) (1 / 2) :: error + string sketch) = Inl TypeError"
  by (simp add: CountMinSketchUsingEpsAndDelta_init_def math_log_def float_inf_def)

text \<open>The same holds for every pair of arguments: the subclass constructor never returns.\<close>

lemma CountMinSketchUsingEpsAndDelta_init_never_returns:
  "CountMinSketchUsingEpsAndDelta_init eps delta \<noteq> Inr s"
  by (simp add: CountMinSketchUsingEpsAndDelta_init_def math_log_def)

section \<open>Rejected calls\<close>

text \<open>
  C5. A negative count makes \<open>update\<close> raise ValueError and leaves the whole object,
  in particular the total count, every counter, the heap, the dictionary and the
  entries, as it was.
\<close>

theorem update_negative_rejected:
  "cnt < 0 \<Longrightarrow> update h s item cnt = Inl (ValueError, s)"
  by (simp add: update_def)

theorem update_negative_rejected_witness:
  "(- 1 :: int) < 0 \<and>
   update (\<lambda>item i. 0) \<lparr> sk_w = 1, sk_d = 1, sk_k = 1, sk_n = 4, sk_heap = [0],
       sk_top_k = [(7 :: int, 0)], sk_tables = [[4]], objs = [(4, 7)] \<rparr> 8 (- 1)
   = Inl (ValueError, \<lparr> sk_w = 1, sk_d = 1, sk_k = 1, sk_n = 4, sk_heap = [0],
       sk_top_k = [(7, 0)], sk_tables = [[4]], objs = [(4, 7)] \<rparr>)"
  using update_negative_rejected [of "- 1" "\<lambda>item i. 0"
      "\<lparr> sk_w = 1, sk_d = 1, sk_k = 1, sk_n = 4, sk_heap = [0],
         sk_top_k = [(7 :: int, 0)], sk_tables = [[4]], objs = [(4, 7)] \<rparr>" 8]
  by simp

text \<open>
  C9. \<open>merge\<close> never returns and leaves the object as it was, but the exception it
  raises is TypeError, whatever the argument.
\<close>

theorem merge_raises_TypeError:
  "merge s count_min_sketch = Inl (TypeError, s)"
  by (simp add: merge_def)

section \<open>The counter table\<close>

lemma py_index_in_range: "0 \<le> idx \<Longrightarrow> idx < int len \<Longrightarrow> py_index len idx = Some (nat idx)"
  by (simp add: py_index_def)

lemma read_rows_in_range:
  "length idxs = length rows \<Longrightarrow>
   \<forall>r < length rows. 0 \<le> idxs ! r \<and> idxs ! r < int (length (rows ! r)) \<Longrightarrow>
   read_rows rows idxs = Inr (map (\<lambda>r. rows ! r ! nat (idxs ! r)) [0..<length rows])"
proof (induction rows idxs rule: read_rows.induct)
  case (1 idxs)
  then show ?case by simp
next
  case (2 row rows)
  then show ?case by simp
next
  case (3 row rows idx idxs)
  from "3.prems"(2) have h0: "0 \<le> idx \<and> idx < int (length row)" by fastforce
  from "3.prems"(2) have hr: "\<forall>r < length rows. 0 \<le> idxs ! r \<and> idxs ! r < int (length (rows ! r))"
    by fastforce
  have ix: "py_index (length row) idx = Some (nat idx)" using h0 by (simp add: py_index_in_range)
  have ih: "read_rows rows idxs = Inr (map (\<lambda>r. rows ! r ! nat (idxs ! r)) [0..<length rows])"
    using "3.IH" [OF ix] "3.prems"(1) hr by simp
  have "[0..<length (row # rows)] = 0 # map Suc [0..<length rows]"
    by (simp add: upt_conv_Cons map_Suc_upt del: upt_Suc)
  then show ?case using ix ih by (simp add: comp_def del: upt_Suc)
qed

lemma hash_length: "length (hash h s item) = nat (sk_d s)"
  by (simp add: hash_def)

lemma hash_nth: "r < nat (sk_d s) \<Longrightarrow> hash h s item ! r = int (h item r) mod sk_w s"
  by (simp add: hash_def)

lemma col_bound: "0 < sk_w s \<Longrightarrow> col h s item r < nat (sk_w s)"
  by (simp add: col_def nat_less_iff)

lemma read_rows_shape:
  assumes "table_shape s"
  shows "read_rows (sk_tables s) (hash h s item) = Inr (counters h s item)"
proof -
  have len: "length (hash h s item) = length (sk_tables s)"
    using assms by (simp add: table_shape_def hash_length)
  have rng: "\<forall>r < length (sk_tables s). 0 \<le> hash h s item ! r
      \<and> hash h s item ! r < int (length (sk_tables s ! r))"
    using assms by (auto simp: table_shape_def hash_nth)
  show ?thesis
    using read_rows_in_range [OF len rng] assms
    by (simp add: counters_def col_def table_shape_def hash_nth)
qed

lemma foldl_min_Min: "foldl min (v::int) vs = Min (set (v # vs))"
proof -
  have "(\<lambda>x s. min s x) = (min :: int \<Rightarrow> int \<Rightarrow> int)"
    by (intro ext) (rule min.commute)
  then show ?thesis
    by (simp add: Min.set_eq_fold foldl_conv_fold del: set_simps)
qed

lemma estimate_shape:
  assumes "table_shape s"
  shows "estimate h s item = Inr (Min (set (counters h s item)))"
proof -
  have ne: "counters h s item \<noteq> []" using assms by (simp add: counters_def table_shape_def)
  then obtain v vs where c: "counters h s item = v # vs" by (cases "counters h s item") auto
  have "\<not> hash_raises s" using assms by (simp add: hash_raises_def table_shape_def)
  then show ?thesis
    using read_rows_shape [OF assms, of h item] c
    by (simp add: estimate_def foldl_min_Min del: set_simps)
qed


lemma py_index_Some: "py_index len idx = Some j \<Longrightarrow> j < len"
  by (auto simp: py_index_def split: if_splits)

lemma table_shape_nth:
  "table_shape s \<Longrightarrow> r < nat (sk_d s) \<Longrightarrow> length (sk_tables s ! r) = nat (sk_w s)"
  by (simp add: table_shape_def)

lemma add_rows_length: "length (snd (add_rows c rows idxs)) = length rows"
  by (induction c rows idxs rule: add_rows.induct)
     (auto split: option.splits prod.splits)

lemma add_rows_row_length:
  "r < length rows \<Longrightarrow> length (snd (add_rows c rows idxs) ! r) = length (rows ! r)"
  by (induction c rows idxs arbitrary: r rule: add_rows.induct)
     (auto split: option.splits prod.splits simp: nth_Cons')

lemma add_rows_mono:
  "0 \<le> c \<Longrightarrow> r < length rows \<Longrightarrow> j < length (rows ! r) \<Longrightarrow>
   rows ! r ! j \<le> snd (add_rows c rows idxs) ! r ! j"
  by (induction c rows idxs arbitrary: r rule: add_rows.induct)
     (auto split: option.splits prod.splits simp: nth_Cons' nth_list_update dest: py_index_Some)

lemma add_rows_done:
  "add_rows c rows idxs = (None, rows') \<Longrightarrow> r < length rows \<Longrightarrow> r < length idxs \<Longrightarrow>
   0 \<le> idxs ! r \<Longrightarrow> idxs ! r < int (length (rows ! r)) \<Longrightarrow>
   rows' ! r ! nat (idxs ! r) = rows ! r ! nat (idxs ! r) + c"
proof (induction c rows idxs arbitrary: r rows' rule: add_rows.induct)
  case (1 c idxs)
  then show ?case by simp
next
  case (2 c row rows)
  then show ?case by simp
next
  case (3 c row rows idx idxs)
  show ?case
  proof (cases r)
    case 0
    with "3.prems" show ?thesis
      by (auto simp: py_index_def split: option.splits prod.splits if_splits)
  next
    case (Suc r')
    with "3.prems" "3.IH" show ?thesis
      by (auto split: option.splits prod.splits if_splits)
  qed
qed

lemma update_heap_frame:
  "update_heap h s item = Inr s' \<or> update_heap h s item = Inl (e, s') \<Longrightarrow>
   sk_tables s' = sk_tables s \<and> sk_w s' = sk_w s \<and> sk_d s' = sk_d s
   \<and> sk_k s' = sk_k s \<and> sk_n s' = sk_n s"
  by (auto simp: update_heap_def Let_def split: sum.splits option.splits if_splits prod.splits)

lemma hash_sk_n [simp]: "hash h (s\<lparr>sk_n := m\<rparr>) item = hash h s item"
  by (simp add: hash_def)

lemma update_Inr:
  assumes "update h s item c = Inr s'"
  shows "0 \<le> c" and "sk_w s' = sk_w s" and "sk_d s' = sk_d s" and "sk_k s' = sk_k s"
    and "sk_n s' = sk_n s + c"
    and "add_rows c (sk_tables s) (hash h s item) = (None, sk_tables s')"
proof -
  from assms show c: "0 \<le> c" by (auto simp: update_def split: if_splits)
  obtain e ts where ar: "add_rows c (sk_tables s) (hash h s item) = (e, ts)"
    by (cases "add_rows c (sk_tables s) (hash h s item)")
  from assms c ar have e: "e = None"
    and uh: "update_heap h (s\<lparr>sk_n := sk_n s + c, sk_tables := ts\<rparr>) item = Inr s'"
    by (auto simp: update_def Let_def split: if_splits option.splits)
  from update_heap_frame [of h _ item s', OF disjI1, OF uh]
  show "sk_w s' = sk_w s" "sk_d s' = sk_d s" "sk_k s' = sk_k s" "sk_n s' = sk_n s + c"
    "add_rows c (sk_tables s) (hash h s item) = (None, sk_tables s')"
    using ar e by simp_all
qed

lemma update_Inr_shape:
  assumes "update h s item c = Inr s'" and "table_shape s"
  shows "table_shape s'"
proof -
  note u = update_Inr [OF assms(1)]
  have t: "sk_tables s' = snd (add_rows c (sk_tables s) (hash h s item))"
    using u(6) by simp
  have l: "length (sk_tables s') = length (sk_tables s)"
    unfolding t by (rule add_rows_length)
  have "length row = nat (sk_w s)" if "row \<in> set (sk_tables s')" for row
  proof -
    from that l obtain r where r: "r < length (sk_tables s)" "row = sk_tables s' ! r"
      by (auto simp: in_set_conv_nth)
    have "length row = length (sk_tables s ! r)"
      unfolding r(2) t using r(1) by (rule add_rows_row_length)
    then show ?thesis using assms(2) r(1) by (simp add: table_shape_def)
  qed
  then show ?thesis
    using assms(2) u(2,3) l by (simp add: table_shape_def)
qed

lemma update_Inr_counters:
  assumes "update h s item c = Inr s'" and "table_shape s" and "r < nat (sk_d s)"
  shows "sk_tables s ! r ! col h s x r + (if item = x then c else 0)
         \<le> sk_tables s' ! r ! col h s' x r"
proof -
  note u = update_Inr [OF assms(1)]
  have t: "sk_tables s' = snd (add_rows c (sk_tables s) (hash h s item))"
    using u(6) by simp
  have rl: "r < length (sk_tables s)" using assms(2,3) by (simp add: table_shape_def)
  have len: "length (sk_tables s ! r) = nat (sk_w s)"
    using assms(2,3) by (rule table_shape_nth)
  have wpos: "0 < sk_w s" using assms(2) by (simp add: table_shape_def)
  have cs: "col h s' x r = col h s x r" using u(2) by (simp add: col_def)
  show ?thesis
  proof (cases "item = x")
    case True
    have "sk_tables s' ! r ! nat (hash h s item ! r)
          = sk_tables s ! r ! nat (hash h s item ! r) + c"
      using add_rows_done [OF u(6) rl] assms(3) wpos len
      by (simp add: hash_length hash_nth)
    then show ?thesis using True cs assms(3) by (simp add: hash_nth col_def)
  next
    case False
    have "sk_tables s ! r ! col h s x r \<le> sk_tables s' ! r ! col h s x r"
      unfolding t using u(1) rl len col_bound [OF wpos, of h x r]
      by (intro add_rows_mono) simp_all
    then show ?thesis using False cs by simp
  qed
qed

lemma Min_list_mono:
  assumes "length xs = length ys" and "xs \<noteq> []"
    and "\<forall>i < length xs. (xs ! i :: int) \<le> ys ! i"
  shows "Min (set xs) \<le> Min (set ys)"
proof -
  have "ys \<noteq> []" using assms(1,2) by auto
  then have "Min (set ys) \<in> set ys" by (intro Min_in) simp_all
  then obtain i where i: "i < length ys" "ys ! i = Min (set ys)"
    by (auto simp: in_set_conv_nth)
  have "Min (set xs) \<le> xs ! i" using i(1) assms(1) by (intro Min_le) simp_all
  also have "\<dots> \<le> ys ! i" using assms(1,3) i(1) by simp
  finally show ?thesis using i(2) by simp
qed


text \<open>
  C4. On a sketch with positive width and depth, a call of \<open>update\<close> that returns
  normally, for item \<open>x\<close> or for any other item, never lowers \<open>estimate x\<close>: the
  estimate is defined before and after, and the later value is at least the earlier one.
\<close>

theorem estimate_never_decreases:
  assumes "table_shape s" and "update h s item cnt = Inr s'"
  shows "\<exists>e e'. estimate h s x = Inr e \<and> estimate h s' x = Inr e' \<and> e \<le> e'"
proof -
  note u = update_Inr [OF assms(2)]
  have sh': "table_shape s'" using assms by (rule update_Inr_shape [rotated])
  have ne: "counters h s x \<noteq> []" using assms(1) by (simp add: counters_def table_shape_def)
  have "counters h s x ! i \<le> counters h s' x ! i" if "i < length (counters h s x)" for i
  proof -
    from that have i: "i < nat (sk_d s)" by (simp add: counters_def)
    have "sk_tables s ! i ! col h s x i \<le> sk_tables s ! i ! col h s x i + (if item = x then cnt else 0)"
      using u(1) by simp
    also have "\<dots> \<le> sk_tables s' ! i ! col h s' x i"
      by (rule update_Inr_counters [OF assms(2,1) i])
    finally show ?thesis using i u(3) by (simp add: counters_def)
  qed
  moreover have "length (counters h s x) = length (counters h s' x)"
    using u(3) by (simp add: counters_def)
  ultimately have "Min (set (counters h s x)) \<le> Min (set (counters h s' x))"
    using ne by (intro Min_list_mono) simp_all
  then show ?thesis
    by (simp add: estimate_shape [OF assms(1)] estimate_shape [OF sh'])
qed

theorem estimate_never_decreases_witness:
  "table_shape \<lparr> sk_w = 2, sk_d = 2, sk_k = 2, sk_n = 5, sk_heap = [0], sk_top_k = [(1 :: int, 0)],
       sk_tables = [[0, 5], [5, 0]], objs = [(5, 1)] \<rparr>
   \<and> update (\<lambda>item i. nat item + i)
       \<lparr> sk_w = 2, sk_d = 2, sk_k = 2, sk_n = 5, sk_heap = [0], sk_top_k = [(1 :: int, 0)],
         sk_tables = [[0, 5], [5, 0]], objs = [(5, 1)] \<rparr> 3 3
     = Inr \<lparr> sk_w = 2, sk_d = 2, sk_k = 2, sk_n = 8, sk_heap = [0, 1],
         sk_top_k = [(1, 0), (3, 1)], sk_tables = [[0, 8], [8, 0]], objs = [(5, 1), (8, 3)] \<rparr>
   \<and> (\<exists>e e'. estimate (\<lambda>item i. nat item + i)
         \<lparr> sk_w = 2, sk_d = 2, sk_k = 2, sk_n = 5, sk_heap = [0], sk_top_k = [(1 :: int, 0)],
           sk_tables = [[0, 5], [5, 0]], objs = [(5, 1)] \<rparr> 1 = Inr e
       \<and> estimate (\<lambda>item i. nat item + i)
         \<lparr> sk_w = 2, sk_d = 2, sk_k = 2, sk_n = 8, sk_heap = [0, 1],
           sk_top_k = [(1, 0), (3, 1)], sk_tables = [[0, 8], [8, 0]], objs = [(5, 1), (8, 3)] \<rparr> 1 = Inr e'
       \<and> e \<le> e')"
proof -
  let ?h = "\<lambda>(item :: int) i. nat item + i"
  let ?before = "\<lparr> sk_w = 2, sk_d = 2, sk_k = 2, sk_n = 5, sk_heap = [0], sk_top_k = [(1 :: int, 0)],
       sk_tables = [[0, 5], [5, 0]], objs = [(5, 1)] \<rparr>"
  let ?after = "\<lparr> sk_w = 2, sk_d = 2, sk_k = 2, sk_n = 8, sk_heap = [0, 1],
         sk_top_k = [(1 :: int, 0), (3, 1)], sk_tables = [[0, 8], [8, 0]], objs = [(5, 1), (8, 3)] \<rparr>"
  have shape: "table_shape ?before" by (simp add: table_shape_def)
  have call: "update ?h ?before 3 3 = Inr ?after" by code_simp
  show ?thesis using shape call estimate_never_decreases [OF shape call, of 1] by simp
qed



lemma init_Inr:
  assumes "CountMinSketch_init w d k = Inr s"
  shows "sk_w s = w" "sk_d s = d" "sk_k s = k" "sk_n s = 0" "sk_heap s = []" "sk_top_k s = []"
    "sk_tables s = replicate (nat d) (replicate (nat w) 0)" "objs s = []"
  using assms by (auto simp: CountMinSketch_init_def split: if_splits)




section \<open>heapq keeps a heap\<close>

lemma desc_le: "desc m p \<Longrightarrow> m \<le> p"
  by (induction rule: desc.induct) auto

lemma desc_parent:
  assumes "desc m p" and "p \<noteq> m"
  shows "m \<le> (p - 1) div 2" and "desc m ((p - 1) div 2)" and "m < p"
proof -
  from assms obtain q where q: "desc m q" "p = 2 * q + 1 \<or> p = 2 * q + 2"
    by (auto elim: desc.cases)
  have pq: "(p - 1) div 2 = q" using q(2) by auto
  show "m \<le> (p - 1) div 2" using desc_le [OF q(1)] pq by simp
  show "desc m ((p - 1) div 2)" using q(1) pq by simp
  show "m < p" using desc_le [OF q(1)] q(2) by auto
qed

lemma desc_zero: "desc 0 p"
proof (induction p rule: less_induct)
  case (less p)
  show ?case
  proof (cases "p = 0")
    case True
    then show ?thesis by (simp add: desc_self)
  next
    case False
    then have q: "(p - 1) div 2 < p" by simp
    have "p = 2 * ((p - 1) div 2) + 1 \<or> p = 2 * ((p - 1) div 2) + 2"
      using False by presburger
    then show ?thesis
      using desc_left [OF less.IH [OF q]] desc_right [OF less.IH [OF q]] by metis
  qed
qed

lemma siftdown_loop_length [simp]:
  "length (siftdown_loop key hp m x pos) = length hp"
  by (induction key hp m x pos rule: siftdown_loop.induct)
     (subst siftdown_loop.simps, simp add: Let_def)

lemma siftdown_loop_mset:
  "pos < length hp \<Longrightarrow> mset (siftdown_loop key hp m x pos) = mset (hp[pos := x])"
proof (induction key hp m x pos rule: siftdown_loop.induct)
  case (1 key hp startpos newitem pos)
  let ?q = "(pos - 1) div 2"
  show ?case
  proof (cases "startpos < pos \<and> key newitem < key (hp ! ?q)")
    case True
    then have q: "?q < pos" by arith
    have "mset (siftdown_loop key (hp[pos := hp ! ?q]) startpos newitem ?q)
          = mset (hp[pos := hp ! ?q, ?q := newitem])"
      using "1.IH" [OF _ refl refl] True "1.prems" q by simp
    also have "hp[pos := hp ! ?q, ?q := newitem]
          = (hp[pos := newitem])[pos := (hp[pos := newitem]) ! ?q, ?q := (hp[pos := newitem]) ! pos]"
      using q "1.prems" by simp
    also have "mset \<dots> = mset (hp[pos := newitem])"
      using q "1.prems" by (intro mset_swap) simp_all
    finally show ?thesis
      using True by (subst siftdown_loop.simps) (simp add: Let_def)
  next
    case False
    then show ?thesis by (subst siftdown_loop.simps) (auto simp: Let_def)
  qed
qed


lemma hole_inv_edge:
  "hole_inv key hp m pos \<Longrightarrow> j < length hp \<Longrightarrow> 0 < j \<Longrightarrow> m \<le> (j - 1) div 2 \<Longrightarrow>
   j \<noteq> pos \<Longrightarrow> (j - 1) div 2 \<noteq> pos \<Longrightarrow> key (hp ! ((j - 1) div 2)) \<le> key (hp ! j)"
  by (simp add: hole_inv_def)

lemma hole_inv_grand:
  "hole_inv key hp m pos \<Longrightarrow> j < length hp \<Longrightarrow> 0 < j \<Longrightarrow> (j - 1) div 2 = pos \<Longrightarrow>
   0 < pos \<Longrightarrow> m \<le> (pos - 1) div 2 \<Longrightarrow> key (hp ! ((pos - 1) div 2)) \<le> key (hp ! j)"
  by (simp add: hole_inv_def)

lemma hole_up_inv:
  assumes inv: "hole_inv key hp m pos" and pos: "0 < pos" "pos < length hp"
    and m: "m \<le> (pos - 1) div 2"
  shows "hole_inv key (hp[pos := hp ! ((pos - 1) div 2)]) m ((pos - 1) div 2)"
proof -
  let ?q = "(pos - 1) div 2"
  let ?hp = "hp[pos := hp ! ?q]"
  have qp: "?q < pos" using pos(1) by arith
  have e1: "key (hp ! ((j - 1) div 2)) \<le> key (hp ! j)"
    if "j < length hp" "0 < j" "m \<le> (j - 1) div 2" "j \<noteq> pos" "(j - 1) div 2 \<noteq> pos" for j
    using inv that by (rule hole_inv_edge)
  have e2: "key (hp ! ?q) \<le> key (hp ! j)"
    if "j < length hp" "0 < j" "(j - 1) div 2 = pos" for j
    using inv that pos(1) m by (rule hole_inv_grand)
  have c1: "key (?hp ! ((j - 1) div 2)) \<le> key (?hp ! j)"
    if j: "j < length ?hp" "0 < j" "m \<le> (j - 1) div 2" "j \<noteq> ?q" "(j - 1) div 2 \<noteq> ?q" for j
  proof (cases "(j - 1) div 2 = pos")
    case True
    then have "j \<noteq> pos" using j(2) by arith
    then show ?thesis using True e2 [of j] j pos(2) by simp
  next
    case False
    have "j \<noteq> pos" using j(5) by auto
    then show ?thesis using False e1 [of j] j by simp
  qed
  have c2: "key (?hp ! ((?q - 1) div 2)) \<le> key (?hp ! j)"
    if j: "j < length ?hp" "0 < j" "(j - 1) div 2 = ?q" "0 < ?q" "m \<le> (?q - 1) div 2" for j
  proof -
    have qq: "(?q - 1) div 2 < ?q" using j(4) by arith
    have ql: "?q < length hp" using qp pos(2) by simp
    have g: "key (hp ! ((?q - 1) div 2)) \<le> key (hp ! ?q)"
      using e1 [of ?q] ql j(4,5) qp qq by simp
    have l: "?hp ! ((?q - 1) div 2) = hp ! ((?q - 1) div 2)" using qq qp by simp
    show ?thesis
    proof (cases "j = pos")
      case True
      then show ?thesis using g l pos(2) by simp
    next
      case False
      have "(j - 1) div 2 \<noteq> pos" using j(3) qp by simp
      then have "key (hp ! ?q) \<le> key (hp ! j)"
        using e1 [of j] j False m by simp
      then show ?thesis using g l False by simp
    qed
  qed
  show ?thesis unfolding hole_inv_def using c1 c2 by blast
qed

lemma hole_up_below:
  assumes inv: "hole_inv key hp m pos" and pos: "0 < pos" "pos < length hp"
    and m: "m \<le> (pos - 1) div 2" and lt: "key x < key (hp ! ((pos - 1) div 2))"
  shows "below_hole key (hp[pos := hp ! ((pos - 1) div 2)]) ((pos - 1) div 2) x"
proof -
  let ?q = "(pos - 1) div 2"
  let ?hp = "hp[pos := hp ! ?q]"
  have qp: "?q < pos" using pos(1) by arith
  have "key x \<le> key (?hp ! j)" if j: "j < length ?hp" "0 < j" "(j - 1) div 2 = ?q" for j
  proof (cases "j = pos")
    case True
    then show ?thesis using lt pos(2) by simp
  next
    case False
    have "(j - 1) div 2 \<noteq> pos" using j(3) qp by simp
    then have "key (hp ! ((j - 1) div 2)) \<le> key (hp ! j)"
      using inv j False m by (intro hole_inv_edge [of key hp m pos]) simp_all
    then show ?thesis using lt False j(3) by simp
  qed
  then show ?thesis unfolding below_hole_def by blast
qed

lemma hole_fill:
  assumes inv: "hole_inv key hp m pos" and bel: "below_hole key hp pos x"
    and pos: "pos < length hp"
    and top: "pos = m \<or> (0 < pos \<and> key (hp ! ((pos - 1) div 2)) \<le> key x)"
  shows "heap_from key (hp[pos := x]) m"
proof -
  let ?hp = "hp[pos := x]"
  have "key (?hp ! ((j - 1) div 2)) \<le> key (?hp ! j)"
    if j: "j \<in> {1..<length ?hp}" "m \<le> (j - 1) div 2" for j
  proof -
    have j0: "0 < j" "j < length hp" using j(1) by simp_all
    have pj: "(j - 1) div 2 < j" using j0(1) by arith
    show ?thesis
    proof (cases "j = pos")
      case True
      then have "pos \<noteq> m" using pj j(2) by simp
      then have "key (hp ! ((pos - 1) div 2)) \<le> key x" using top by simp
      then show ?thesis using True pj pos by simp
    next
      case False
      show ?thesis
      proof (cases "(j - 1) div 2 = pos")
        case True
        then show ?thesis using bel j0 False pos by (simp add: below_hole_def)
      next
        case np: False
        have "key (hp ! ((j - 1) div 2)) \<le> key (hp ! j)"
          using inv j0(2,1) j(2) False np by (rule hole_inv_edge)
        then show ?thesis using False np by simp
      qed
    qed
  qed
  then show ?thesis unfolding heap_from_def by blast
qed

lemma siftdown_loop_heap:
  "hole_inv key hp m pos \<Longrightarrow> below_hole key hp pos x \<Longrightarrow> desc m pos \<Longrightarrow> pos < length hp \<Longrightarrow>
   heap_from key (siftdown_loop key hp m x pos) m"
proof (induction key hp m x pos rule: siftdown_loop.induct)
  case (1 key hp m x pos)
  let ?q = "(pos - 1) div 2"
  show ?case
  proof (cases "m < pos \<and> key x < key (hp ! ?q)")
    case True
    then have ne: "pos \<noteq> m" and p0: "0 < pos" by auto
    note dp = desc_parent [OF "1.prems"(3) ne]
    have qp: "?q < pos" using p0 by arith
    have "heap_from key (siftdown_loop key (hp[pos := hp ! ?q]) m x ?q) m"
    proof (rule "1.IH" [OF _ refl refl])
      show "m < pos" using True by simp
      show "key x < key (hp ! ?q)" using True by simp
      show "hole_inv key (hp[pos := hp ! ?q]) m ?q"
        using "1.prems"(1) p0 "1.prems"(4) dp(1) by (rule hole_up_inv)
      show "below_hole key (hp[pos := hp ! ?q]) ?q x"
        using "1.prems"(1) p0 "1.prems"(4) dp(1) True by (intro hole_up_below) simp_all
      show "desc m ?q" by (rule dp(2))
      show "?q < length (hp[pos := hp ! ?q])" using qp "1.prems"(4) by simp
    qed
    then show ?thesis using True by (subst siftdown_loop.simps) (simp add: Let_def)
  next
    case False
    have "pos = m \<or> (0 < pos \<and> key (hp ! ?q) \<le> key x)"
      using False desc_le [OF "1.prems"(3)] by auto
    then have "heap_from key (hp[pos := x]) m"
      by (rule hole_fill [OF "1.prems"(1,2,4)])
    then show ?thesis using False by (subst siftdown_loop.simps) (auto simp: Let_def)
  qed
qed


lemma hole_inv_update [simp]:
  "hole_inv key (hp[pos := v]) m pos = hole_inv key hp m pos"
proof -
  have "(pos - 1) div 2 \<noteq> pos" if "0 < pos" using that by arith
  then show ?thesis
    by (auto simp: hole_inv_def nth_list_update)
qed

lemma below_hole_update [simp]:
  "below_hole key (hp[pos := v]) pos x = below_hole key hp pos x"
proof -
  have "j \<noteq> pos" if "0 < j" "(j - 1) div 2 = pos" for j using that by arith
  then show ?thesis
    by (auto simp: below_hole_def nth_list_update)
qed

lemma hole_down_inv:
  assumes inv: "hole_inv key hp m pos" and m: "m \<le> pos"
    and c: "c < length hp" "0 < c" "(c - 1) div 2 = pos"
    and least: "\<forall>j < length hp. 0 < j \<longrightarrow> (j - 1) div 2 = pos \<longrightarrow> key (hp ! c) \<le> key (hp ! j)"
  shows "hole_inv key (hp[pos := hp ! c]) m c"
proof -
  let ?hp = "hp[pos := hp ! c]"
  have pc: "pos < c" using c(2,3) by arith
  have pl: "pos < length hp" using pc c(1) by simp
  have c1: "key (?hp ! ((j - 1) div 2)) \<le> key (?hp ! j)"
    if j: "j < length ?hp" "0 < j" "m \<le> (j - 1) div 2" "j \<noteq> c" "(j - 1) div 2 \<noteq> c" for j
  proof -
    have pj: "(j - 1) div 2 < j" using j(2) by arith
    show ?thesis
    proof (cases "j = pos")
      case True
      have "key (hp ! ((pos - 1) div 2)) \<le> key (hp ! c)"
        using inv c(1,2,3) j(2,3) True by (intro hole_inv_grand [of key hp m pos]) simp_all
      then show ?thesis using True pj pl by simp
    next
      case False
      show ?thesis
      proof (cases "(j - 1) div 2 = pos")
        case True
        then show ?thesis using least j(1,2) False pl by simp
      next
        case np: False
        have "key (hp ! ((j - 1) div 2)) \<le> key (hp ! j)"
          using inv j(1,2,3) False np by (intro hole_inv_edge [of key hp m pos]) simp_all
        then show ?thesis using False np by simp
      qed
    qed
  qed
  have c2: "key (?hp ! ((c - 1) div 2)) \<le> key (?hp ! j)"
    if j: "j < length ?hp" "0 < j" "(j - 1) div 2 = c" for j
  proof -
    have cj: "c < j" using j(2,3) by arith
    have "key (hp ! ((j - 1) div 2)) \<le> key (hp ! j)"
      using inv j m pc cj by (intro hole_inv_edge [of key hp m pos]) simp_all
    then show ?thesis using j(3) c(3) pl pc cj by simp
  qed
  show ?thesis unfolding hole_inv_def using c1 c2 by blast
qed

lemma swap_hole_mset:
  assumes "pos < length hp" and "c < length hp" and "pos \<noteq> c"
  shows "mset (hp[pos := hp ! c, c := x]) = mset (hp[pos := x])"
proof -
  let ?l = "hp[pos := x]"
  have "hp[pos := hp ! c, c := x] = ?l[c := ?l ! pos, pos := ?l ! c]"
    using assms by (simp add: list_update_swap)
  also have "mset \<dots> = mset ?l"
    using assms by (intro mset_swap) simp_all
  finally show ?thesis .
qed

lemma siftup_loop_spec:
  "siftup_loop key hp endpos pos = (hp1, pos1) \<Longrightarrow> endpos = length hp \<Longrightarrow>
   hole_inv key hp m pos \<Longrightarrow> desc m pos \<Longrightarrow> pos < length hp \<Longrightarrow>
   hole_inv key hp1 m pos1 \<and> desc m pos1 \<and> pos1 < length hp1 \<and> length hp1 = length hp
   \<and> length hp1 \<le> 2 * pos1 + 1 \<and> mset (hp1[pos1 := x]) = mset (hp[pos := x])"
proof (induction key hp endpos pos arbitrary: hp1 pos1 rule: siftup_loop.induct)
  case (1 key hp endpos pos)
  let ?l = "2 * pos + 1"
  let ?right = "?l + 1 < endpos \<and> \<not> key (hp ! ?l) < key (hp ! (?l + 1))"
  define c where "c = (if ?right then ?l + 1 else ?l)"
  show ?case
  proof (cases "?l < endpos")
    case True
    have run: "siftup_loop key (hp[pos := hp ! c]) endpos c = (hp1, pos1)"
    proof (cases ?right)
      case True
      with "1.prems"(1) \<open>?l < endpos\<close> show ?thesis
        unfolding c_def by (subst (asm) siftup_loop.simps) (simp add: Let_def)
    next
      case False
      with "1.prems"(1) \<open>?l < endpos\<close> show ?thesis
        unfolding c_def by (subst (asm) siftup_loop.simps) (auto simp: Let_def split: if_splits)
    qed
    have c: "c < length hp" "0 < c" "(c - 1) div 2 = pos" "pos \<noteq> c"
      using True "1.prems"(2) by (auto simp: c_def)
    have least: "\<forall>j < length hp. 0 < j \<longrightarrow> (j - 1) div 2 = pos \<longrightarrow> key (hp ! c) \<le> key (hp ! j)"
    proof (intro allI impI)
      fix j assume j: "j < length hp" "0 < j" "(j - 1) div 2 = pos"
      then have "j = ?l \<or> j = ?l + 1" by arith
      then show "key (hp ! c) \<le> key (hp ! j)"
        using j(1) "1.prems"(2) by (auto simp: c_def)
    qed
    have inv': "hole_inv key (hp[pos := hp ! c]) m c"
      using "1.prems"(3) desc_le [OF "1.prems"(4)] c(1,2,3) least by (rule hole_down_inv)
    have d': "desc m c"
      using desc_left [OF "1.prems"(4)] desc_right [OF "1.prems"(4)] by (simp add: c_def)
    have "hole_inv key hp1 m pos1 \<and> desc m pos1 \<and> pos1 < length hp1
        \<and> length hp1 = length (hp[pos := hp ! c])
        \<and> length hp1 \<le> 2 * pos1 + 1
        \<and> mset (hp1[pos1 := x]) = mset (hp[pos := hp ! c, c := x])"
      using c(1) "1.prems"(2)
      by (intro "1.IH" [OF refl True refl c_def run _ inv' d']) simp_all
    moreover have "mset (hp[pos := hp ! c, c := x]) = mset (hp[pos := x])"
      using "1.prems"(5) c(1,4) by (rule swap_hole_mset)
    ultimately show ?thesis by simp
  next
    case False
    then have "hp1 = hp" "pos1 = pos"
      using "1.prems"(1) by (subst (asm) siftup_loop.simps, simp add: Let_def)+
    then show ?thesis using "1.prems" False by simp
  qed
qed

lemma siftup_spec:
  assumes "heap_from key hp (Suc pos)" and "pos < length hp"
  shows "heap_from key (siftup key hp pos) pos" and "mset (siftup key hp pos) = mset hp"
proof -
  obtain hp1 pos1 where run: "siftup_loop key hp (length hp) pos = (hp1, pos1)"
    by (cases "siftup_loop key hp (length hp) pos")
  have inv0: "hole_inv key hp pos pos"
  proof -
    have "(pos - 1) div 2 < pos" if "0 < pos" using that by arith
    then show ?thesis
      using assms(1) by (auto simp: hole_inv_def heap_from_def)
  qed
  from siftup_loop_spec [OF run refl inv0 desc_self assms(2), of "hp ! pos"]
  have s: "hole_inv key hp1 pos pos1" "desc pos pos1" "pos1 < length hp1" "length hp1 = length hp"
    "length hp1 \<le> 2 * pos1 + 1" "mset (hp1[pos1 := hp ! pos]) = mset hp"
    by simp_all
  have bel: "below_hole key hp1 pos1 (hp ! pos)"
  proof -
    have "length hp1 \<le> j" if "0 < j" "(j - 1) div 2 = pos1" for j
      using that s(5) by arith
    then show ?thesis by (fastforce simp: below_hole_def)
  qed
  have eq: "siftup key hp pos = siftdown_loop key (hp1[pos1 := hp ! pos]) pos (hp ! pos) pos1"
    using run s(3) by (simp add: siftup_def siftdown_def Let_def)
  show "heap_from key (siftup key hp pos) pos"
    unfolding eq using s(1,2,3) bel by (intro siftdown_loop_heap) simp_all
  show "mset (siftup key hp pos) = mset hp"
    unfolding eq using s(3,6) by (simp add: siftdown_loop_mset)
qed


lemma heapify_loop:
  "k \<le> length x \<Longrightarrow> heap_from key x k \<Longrightarrow>
   heap_from key (foldl (\<lambda>hp i. siftup key hp i) x (rev [0..<k])) 0
   \<and> mset (foldl (\<lambda>hp i. siftup key hp i) x (rev [0..<k])) = mset x"
proof (induction k arbitrary: x)
  case 0
  then show ?case by simp
next
  case (Suc k)
  have kl: "k < length x" using Suc.prems(1) by simp
  note s = siftup_spec [OF Suc.prems(2) kl]
  have len: "length (siftup key x k) = length x"
    using s(2) by (metis size_mset)
  have "k \<le> length (siftup key x k)" using kl len by simp
  from Suc.IH [OF this s(1)] s(2) show ?case by simp
qed

lemma heap_from_leaves: "heap_from key x (length x div 2)"
proof -
  have "\<not> length x div 2 \<le> (j - 1) div 2" if "j < length x" "0 < j" for j
    using that by arith
  then show ?thesis by (simp add: heap_from_def)
qed

lemma heapify_spec:
  "is_heap key (heapify key x)" "mset (heapify key x) = mset x"
  using heapify_loop [of "length x div 2" x key] heap_from_leaves [of key x]
  by (simp_all add: heapify_def is_heap_def)

lemma heappush_spec:
  assumes "is_heap key hp"
  shows "is_heap key (heappush key hp x)" and "mset (heappush key hp x) = add_mset x (mset hp)"
proof -
  let ?n = "length hp"
  have eq: "heappush key hp x = siftdown_loop key (hp @ [x]) 0 x ?n"
    by (simp add: heappush_def siftdown_def)
  have inv: "hole_inv key (hp @ [x]) 0 ?n"
  proof -
    have "key ((hp @ [x]) ! ((j - 1) div 2)) \<le> key ((hp @ [x]) ! j)"
      if "j < length (hp @ [x])" "0 < j" "j \<noteq> ?n" for j
    proof -
      have j: "j < ?n" "(j - 1) div 2 < ?n" using that by auto
      then show ?thesis using assms that(2) by (simp add: nth_append is_heap_def heap_from_def)
    qed
    moreover have "\<not> (j - 1) div 2 = ?n" if "j < length (hp @ [x])" "0 < j" for j
      using that div_le_dividend [of "j - 1" 2] by simp
    ultimately show ?thesis by (simp add: hole_inv_def)
  qed
  have bel: "below_hole key (hp @ [x]) ?n x"
  proof -
    have "\<not> (j - 1) div 2 = ?n" if "j < length (hp @ [x])" "0 < j" for j
      using that div_le_dividend [of "j - 1" 2] by simp
    then show ?thesis by (simp add: below_hole_def)
  qed
  show "is_heap key (heappush key hp x)"
    unfolding eq is_heap_def using inv bel desc_zero by (intro siftdown_loop_heap) simp_all
  show "mset (heappush key hp x) = add_mset x (mset hp)"
    unfolding eq by (simp add: siftdown_loop_mset)
qed

lemma heap_from_root_update:
  assumes "is_heap key hp"
  shows "heap_from key (hp[0 := x]) (Suc 0)"
proof -
  have "key (hp[0 := x] ! ((j - 1) div 2)) \<le> key (hp[0 := x] ! j)"
    if "j \<in> {1..<length hp}" "Suc 0 \<le> (j - 1) div 2" for j
    using that assms by (simp add: is_heap_def heap_from_def)
  then show ?thesis by (simp add: heap_from_def)
qed

lemma heappushpop_spec:
  assumes "is_heap key hp" and "heappushpop key hp x = (r, hp')"
  shows "is_heap key hp'" and "add_mset r (mset hp') = add_mset x (mset hp)"
    and "hp \<noteq> [] \<Longrightarrow> key (hp ! 0) < key x \<Longrightarrow> r = hp ! 0"
proof -
  show "hp \<noteq> [] \<Longrightarrow> key (hp ! 0) < key x \<Longrightarrow> r = hp ! 0"
    using assms(2) by (simp add: heappushpop_def)
  show "is_heap key hp'" "add_mset r (mset hp') = add_mset x (mset hp)"
  proof (atomize (full), cases "hp \<noteq> [] \<and> key (hp ! 0) < key x")
    case True
    then have r: "r = hp ! 0" and h: "hp' = siftup key (hp[0 := x]) 0"
      using assms(2) by (simp_all add: heappushpop_def)
    have l: "0 < length (hp[0 := x])" using True by simp
    note s = siftup_spec [OF heap_from_root_update [OF assms(1), of x] l]
    have "mset (hp[0 := x]) = add_mset x (mset hp - {#hp ! 0#})"
      using True by (simp add: mset_update)
    moreover have "hp ! 0 \<in># mset hp" using True by simp
    ultimately show "is_heap key hp' \<and> add_mset r (mset hp') = add_mset x (mset hp)"
      using s r h by (simp add: is_heap_def)
  next
    case False
    then have "r = x" "hp' = hp" using assms(2) by (auto simp: heappushpop_def split: if_splits)
    then show "is_heap key hp' \<and> add_mset r (mset hp') = add_mset x (mset hp)"
      using assms(1) by simp
  qed
qed

lemma is_heap_root_least:
  assumes "is_heap key hp" and "i < length hp"
  shows "key (hp ! 0) \<le> key (hp ! i)"
  using assms(2)
proof (induction i rule: less_induct)
  case (less i)
  show ?case
  proof (cases "i = 0")
    case True
    then show ?thesis by simp
  next
    case False
    then have p: "(i - 1) div 2 < i" by arith
    have "key (hp ! 0) \<le> key (hp ! ((i - 1) div 2))"
      using less.IH [OF p] p less.prems by simp
    also have "\<dots> \<le> key (hp ! i)"
      using assms(1) False less.prems by (simp add: is_heap_def heap_from_def)
    finally show ?thesis .
  qed
qed

lemma is_heap_cong:
  "(\<And>a. a \<in> set hp \<Longrightarrow> key a = key' a) \<Longrightarrow> is_heap key hp = is_heap key' hp"
proof -
  assume k: "\<And>a. a \<in> set hp \<Longrightarrow> key a = key' a"
  have "key (hp ! i) = key' (hp ! i)" if "i < length hp" for i
    using that k by simp
  moreover have "(j - 1) div 2 < length hp" if "j < length hp" for j
    using that by arith
  ultimately show ?thesis
    by (auto simp: is_heap_def heap_from_def)
qed

section \<open>The heavy-hitter tracker\<close>

lemma update_heap_cases:
  assumes "update_heap h s item = Inr s'"
  obtains
    (refresh) est a where "estimate h s item = Inr est" "map_of (sk_top_k s) item = Some a"
      "s' = s\<lparr>objs := (objs s)[a := (est, snd (objs s ! a))],
              sk_heap := heapify (entry_key (s\<lparr>objs := (objs s)[a := (est, snd (objs s ! a))]\<rparr>)) (sk_heap s)\<rparr>"
  | (insert) est where "estimate h s item = Inr est" "map_of (sk_top_k s) item = None"
      "int (length (sk_heap s)) < sk_k s"
      "s' = s\<lparr>objs := objs s @ [(est, item)],
              sk_top_k := AList.update item (length (objs s)) (sk_top_k s),
              sk_heap := heappush (entry_key (s\<lparr>objs := objs s @ [(est, item)]\<rparr>)) (sk_heap s)
                           (length (objs s))\<rparr>"
  | (ignore) est where "estimate h s item = Inr est" "map_of (sk_top_k s) item = None"
      "\<not> int (length (sk_heap s)) < sk_k s" "sk_heap s \<noteq> []"
      "est \<le> fst ((objs s @ [(est, item)]) ! (sk_heap s ! 0))"
      "s' = s\<lparr>objs := objs s @ [(est, item)]\<rparr>"
  | (evict) est rmv hp where "estimate h s item = Inr est" "map_of (sk_top_k s) item = None"
      "\<not> int (length (sk_heap s)) < sk_k s" "sk_heap s \<noteq> []"
      "\<not> est \<le> fst ((objs s @ [(est, item)]) ! (sk_heap s ! 0))"
      "heappushpop (entry_key (s\<lparr>objs := objs s @ [(est, item)]\<rparr>)) (sk_heap s) (length (objs s))
         = (rmv, hp)"
      "map_of (sk_top_k s) (snd ((objs s @ [(est, item)]) ! rmv)) \<noteq> None"
      "s' = s\<lparr>objs := objs s @ [(est, item)], sk_heap := hp,
              sk_top_k := AList.update item (length (objs s))
                 (AList.delete (snd ((objs s @ [(est, item)]) ! rmv)) (sk_top_k s))\<rparr>"
  using assms
  by (auto simp: update_heap_def Let_def split: sum.splits option.splits if_splits prod.splits)


lemma tracker_invD:
  assumes "tracker_inv s"
  shows "distinct (sk_heap s)" and "distinct (map fst (sk_top_k s))"
    and "\<And>item a. map_of (sk_top_k s) item = Some a \<Longrightarrow> a \<in> set (sk_heap s)"
    and "\<And>item a. map_of (sk_top_k s) item = Some a \<Longrightarrow> a < length (objs s)"
    and "\<And>item a. map_of (sk_top_k s) item = Some a \<Longrightarrow> snd (objs s ! a) = item"
    and "\<And>a. a \<in> set (sk_heap s) \<Longrightarrow> map_of (sk_top_k s) (snd (objs s ! a)) = Some a"
    and "is_heap (entry_key s) (sk_heap s)"
    and "length (sk_heap s) \<le> nat (sk_k s)"
  using assms by (simp_all add: tracker_inv_def)

lemma tracker_invI:
  assumes "distinct (sk_heap s)" and "distinct (map fst (sk_top_k s))"
    and "\<And>item a. map_of (sk_top_k s) item = Some a \<Longrightarrow>
           a \<in> set (sk_heap s) \<and> a < length (objs s) \<and> snd (objs s ! a) = item"
    and "\<And>a. a \<in> set (sk_heap s) \<Longrightarrow> map_of (sk_top_k s) (snd (objs s ! a)) = Some a"
    and "is_heap (entry_key s) (sk_heap s)"
    and "length (sk_heap s) \<le> nat (sk_k s)"
  shows "tracker_inv s"
  unfolding tracker_inv_def using assms by blast

lemma tracker_inv_heap_bound:
  "tracker_inv s \<Longrightarrow> a \<in> set (sk_heap s) \<Longrightarrow> a < length (objs s)"
  using tracker_invD(4,6) by blast

lemma entry_key_objs [simp]: "entry_key (s\<lparr>objs := os\<rparr>) a = os ! a"
  by (simp add: entry_key_def)

lemma is_heap_entry_key_append:
  assumes "tracker_inv s"
  shows "is_heap (entry_key (s\<lparr>objs := objs s @ ext\<rparr>)) (sk_heap s)"
proof -
  have "entry_key (s\<lparr>objs := objs s @ ext\<rparr>) a = entry_key s a" if "a \<in> set (sk_heap s)" for a
    using tracker_inv_heap_bound [OF assms that] by (simp add: entry_key_def nth_append)
  then have "is_heap (entry_key (s\<lparr>objs := objs s @ ext\<rparr>)) (sk_heap s)
      = is_heap (entry_key s) (sk_heap s)"
    by (rule is_heap_cong)
  then show ?thesis using tracker_invD(7) [OF assms] by simp
qed

lemma update_heap_refresh_inv:
  fixes est :: int
  assumes inv: "tracker_inv s" and tr: "map_of (sk_top_k s) item = Some a"
  defines "os \<equiv> (objs s)[a := (est, snd (objs s ! a))]"
  shows "tracker_inv (s\<lparr>objs := os, sk_heap := heapify (entry_key (s\<lparr>objs := os\<rparr>)) (sk_heap s)\<rparr>)"
proof -
  let ?hp = "heapify (entry_key (s\<lparr>objs := os\<rparr>)) (sk_heap s)"
  note h = heapify_spec [of "entry_key (s\<lparr>objs := os\<rparr>)" "sk_heap s"]
  have st: "set ?hp = set (sk_heap s)" using h(2) by (rule mset_eq_setD)
  have di: "distinct ?hp" using h(2) tracker_invD(1) [OF inv] by (metis mset_eq_imp_distinct_iff)
  have le: "length ?hp = length (sk_heap s)" using h(2) by (rule mset_eq_length)
  have sn: "snd (os ! b) = snd (objs s ! b)" for b
    by (cases "b = a"; cases "a < length (objs s)") (simp_all add: os_def list_update_beyond)
  have ln: "length os = length (objs s)" by (simp add: os_def)
  have ek: "entry_key (s\<lparr>objs := os, sk_heap := ?hp\<rparr>) = entry_key (s\<lparr>objs := os\<rparr>)"
    by (intro ext) (simp add: entry_key_def)
  show ?thesis
  proof (rule tracker_invI)
    show "distinct (sk_heap (s\<lparr>objs := os, sk_heap := ?hp\<rparr>))" using di by simp
    show "distinct (map fst (sk_top_k (s\<lparr>objs := os, sk_heap := ?hp\<rparr>)))"
      using tracker_invD(2) [OF inv] by simp
    show "is_heap (entry_key (s\<lparr>objs := os, sk_heap := ?hp\<rparr>))
        (sk_heap (s\<lparr>objs := os, sk_heap := ?hp\<rparr>))"
      using h(1) ek by simp
    show "length (sk_heap (s\<lparr>objs := os, sk_heap := ?hp\<rparr>))
        \<le> nat (sk_k (s\<lparr>objs := os, sk_heap := ?hp\<rparr>))"
      using le tracker_invD(8) [OF inv] by simp
  next
    fix i b
    assume "map_of (sk_top_k (s\<lparr>objs := os, sk_heap := ?hp\<rparr>)) i = Some b"
    then have m: "map_of (sk_top_k s) i = Some b" by simp
    show "b \<in> set (sk_heap (s\<lparr>objs := os, sk_heap := ?hp\<rparr>))
        \<and> b < length (objs (s\<lparr>objs := os, sk_heap := ?hp\<rparr>))
        \<and> snd (objs (s\<lparr>objs := os, sk_heap := ?hp\<rparr>) ! b) = i"
      using tracker_invD(3,4,5) [OF inv m] st sn ln by simp
  next
    fix b
    assume "b \<in> set (sk_heap (s\<lparr>objs := os, sk_heap := ?hp\<rparr>))"
    then have b: "b \<in> set (sk_heap s)" using st by simp
    show "map_of (sk_top_k (s\<lparr>objs := os, sk_heap := ?hp\<rparr>))
        (snd (objs (s\<lparr>objs := os, sk_heap := ?hp\<rparr>) ! b)) = Some b"
      using tracker_invD(6) [OF inv b] sn by simp
  qed
qed

lemma update_heap_insert_inv:
  fixes est :: int
  assumes inv: "tracker_inv s" and nt: "map_of (sk_top_k s) item = None"
    and room: "int (length (sk_heap s)) < sk_k s"
  defines "os \<equiv> objs s @ [(est, item)]"
  shows "tracker_inv (s\<lparr>objs := os,
      sk_top_k := AList.update item (length (objs s)) (sk_top_k s),
      sk_heap := heappush (entry_key (s\<lparr>objs := os\<rparr>)) (sk_heap s) (length (objs s))\<rparr>)"
proof -
  let ?pair = "length (objs s)"
  let ?hp = "heappush (entry_key (s\<lparr>objs := os\<rparr>)) (sk_heap s) ?pair"
  let ?s' = "s\<lparr>objs := os, sk_top_k := AList.update item ?pair (sk_top_k s), sk_heap := ?hp\<rparr>"
  have hp0: "is_heap (entry_key (s\<lparr>objs := os\<rparr>)) (sk_heap s)"
    unfolding os_def using inv by (rule is_heap_entry_key_append)
  note h = heappush_spec [OF hp0, of ?pair]
  have "set_mset (mset ?hp) = set_mset (add_mset ?pair (mset (sk_heap s)))"
    using h(2) by simp
  then have st: "set ?hp = insert ?pair (set (sk_heap s))" by simp
  have fresh: "?pair \<notin> set (sk_heap s)"
    using tracker_inv_heap_bound [OF inv, of ?pair] by auto
  have "distinct (?pair # sk_heap s)" using fresh tracker_invD(1) [OF inv] by simp
  then have di: "distinct ?hp" using h(2) by (metis mset.simps(2) mset_eq_imp_distinct_iff)
  have "size (mset ?hp) = size (add_mset ?pair (mset (sk_heap s)))"
    using h(2) by simp
  then have le: "length ?hp = Suc (length (sk_heap s))" by simp
  have old: "os ! b = objs s ! b" if "b < length (objs s)" for b
    using that by (simp add: os_def nth_append)
  have new: "os ! ?pair = (est, item)" by (simp add: os_def)
  have ek: "entry_key ?s' = entry_key (s\<lparr>objs := os\<rparr>)"
    by (intro ext) (simp add: entry_key_def)
  have c3: "a \<in> set ?hp \<and> a < length os \<and> snd (os ! a) = i"
    if "map_of (AList.update item ?pair (sk_top_k s)) i = Some a" for i a
  proof (cases "i = item")
    case True
    then show ?thesis using that st new by (simp add: update_conv' os_def)
  next
    case False
    then have m: "map_of (sk_top_k s) i = Some a" using that by (simp add: update_conv')
    show ?thesis
      using tracker_invD(3,4,5) [OF inv m] st old by (simp add: os_def)
  qed
  have c4: "map_of (AList.update item ?pair (sk_top_k s)) (snd (os ! a)) = Some a"
    if "a \<in> set ?hp" for a
  proof (cases "a = ?pair")
    case True
    then show ?thesis using new by (simp add: update_conv')
  next
    case False
    then have a: "a \<in> set (sk_heap s)" using that st by simp
    have m: "map_of (sk_top_k s) (snd (objs s ! a)) = Some a" by (rule tracker_invD(6) [OF inv a])
    then have "snd (objs s ! a) \<noteq> item" using nt by auto
    then show ?thesis
      using m old [OF tracker_inv_heap_bound [OF inv a]] by (simp add: update_conv')
  qed
  have c6: "length ?hp \<le> nat (sk_k s)" using le room by simp
  show ?thesis
  proof (rule tracker_invI)
    show "distinct (sk_heap ?s')" using di by simp
    show "distinct (map fst (sk_top_k ?s'))"
      using tracker_invD(2) [OF inv] by (simp add: distinct_update)
    show "is_heap (entry_key ?s') (sk_heap ?s')" using h(1) ek by simp
    show "length (sk_heap ?s') \<le> nat (sk_k ?s')" using c6 by simp
  next
    fix i b
    assume "map_of (sk_top_k ?s') i = Some b"
    then have "map_of (AList.update item ?pair (sk_top_k s)) i = Some b" by simp
    from c3 [OF this]
    show "b \<in> set (sk_heap ?s') \<and> b < length (objs ?s') \<and> snd (objs ?s' ! b) = i" by simp
  next
    fix b
    assume "b \<in> set (sk_heap ?s')"
    then have "b \<in> set ?hp" by simp
    from c4 [OF this]
    show "map_of (sk_top_k ?s') (snd (objs ?s' ! b)) = Some b" by simp
  qed
qed

lemma update_heap_ignore_inv:
  assumes inv: "tracker_inv s"
  shows "tracker_inv (s\<lparr>objs := objs s @ ext\<rparr>)"
proof -
  have old: "(objs s @ ext) ! b = objs s ! b" if "b < length (objs s)" for b
    using that by (simp add: nth_append)
  have c3: "a \<in> set (sk_heap s) \<and> a < length (objs s @ ext) \<and> snd ((objs s @ ext) ! a) = i"
    if m: "map_of (sk_top_k s) i = Some a" for i a
    using tracker_invD(3,4,5) [OF inv m] old by simp
  have c4: "map_of (sk_top_k s) (snd ((objs s @ ext) ! a)) = Some a" if a: "a \<in> set (sk_heap s)" for a
    using tracker_invD(6) [OF inv a] old [OF tracker_inv_heap_bound [OF inv a]] by simp
  let ?s' = "s\<lparr>objs := objs s @ ext\<rparr>"
  show ?thesis
  proof (rule tracker_invI)
    show "distinct (sk_heap ?s')" using tracker_invD(1) [OF inv] by simp
    show "distinct (map fst (sk_top_k ?s'))" using tracker_invD(2) [OF inv] by simp
    show "is_heap (entry_key ?s') (sk_heap ?s')"
      using is_heap_entry_key_append [OF inv, of ext] by simp
    show "length (sk_heap ?s') \<le> nat (sk_k ?s')" using tracker_invD(8) [OF inv] by simp
  next
    fix i b
    assume "map_of (sk_top_k ?s') i = Some b"
    then have "map_of (sk_top_k s) i = Some b" by simp
    from c3 [OF this]
    show "b \<in> set (sk_heap ?s') \<and> b < length (objs ?s') \<and> snd (objs ?s' ! b) = i" by simp
  next
    fix b
    assume "b \<in> set (sk_heap ?s')"
    then have "b \<in> set (sk_heap s)" by simp
    from c4 [OF this]
    show "map_of (sk_top_k ?s') (snd (objs ?s' ! b)) = Some b" by simp
  qed
qed


lemma heappushpop_root:
  fixes est :: int
  assumes inv: "tracker_inv s" and ne: "sk_heap s \<noteq> []"
    and gt: "\<not> est \<le> fst ((objs s @ [(est, item)]) ! (sk_heap s ! 0))"
    and pp: "heappushpop (entry_key (s\<lparr>objs := objs s @ [(est, item)]\<rparr>)) (sk_heap s)
               (length (objs s)) = (rmv, hp)"
  shows "rmv = sk_heap s ! 0" and "rmv \<in> set (sk_heap s)"
    and "is_heap (entry_key (s\<lparr>objs := objs s @ [(est, item)]\<rparr>)) hp"
    and "set hp = insert (length (objs s)) (set (sk_heap s) - {rmv})"
    and "distinct hp" and "length hp = length (sk_heap s)"
    and "mset hp = add_mset (length (objs s)) (mset (sk_heap s) - {#rmv#})"
proof -
  let ?os = "objs s @ [(est, item)]"
  let ?key = "entry_key (s\<lparr>objs := ?os\<rparr>)"
  let ?pair = "length (objs s)"
  have hp0: "is_heap ?key (sk_heap s)" using inv by (rule is_heap_entry_key_append)
  obtain e0 i0 where top: "?os ! (sk_heap s ! 0) = (e0, i0)"
    by (cases "?os ! (sk_heap s ! 0)")
  have "e0 < est" using gt unfolding top by simp
  then have "(e0, i0) < (est, item)" by simp
  moreover have "?key ?pair = (est, item)" by simp
  moreover have "?key (sk_heap s ! 0) = (e0, i0)" using top by simp
  ultimately have lt: "?key (sk_heap s ! 0) < ?key ?pair" by (simp only:)
  note h = heappushpop_spec [OF hp0 pp]
  show r: "rmv = sk_heap s ! 0" using h(3) [OF ne lt] .
  show mem: "rmv \<in> set (sk_heap s)" unfolding r using ne by simp
  show "is_heap ?key hp" by (rule h(1))
  have fresh: "?pair \<notin> set (sk_heap s)"
    using tracker_inv_heap_bound [OF inv, of ?pair] by auto
  have "add_mset rmv (mset hp) - {#rmv#} = add_mset ?pair (mset (sk_heap s)) - {#rmv#}"
    by (simp only: h(2))
  then have "mset hp = add_mset ?pair (mset (sk_heap s)) - {#rmv#}"
    by simp
  also have "\<dots> = add_mset ?pair (mset (sk_heap s) - {#rmv#})"
    using mem by simp
  finally show ms: "mset hp = add_mset ?pair (mset (sk_heap s) - {#rmv#})" .
  have "?pair \<notin> set (remove1 rmv (sk_heap s))"
    using fresh by (rule notin_set_remove1)
  then have d1: "distinct (?pair # remove1 rmv (sk_heap s))"
    using tracker_invD(1) [OF inv] by simp
  have ms': "mset hp = mset (?pair # remove1 rmv (sk_heap s))" unfolding ms by simp
  show "distinct hp" using d1 mset_eq_imp_distinct_iff [OF ms'] by simp
  have "set hp = set (?pair # remove1 rmv (sk_heap s))" using ms' by (rule mset_eq_setD)
  then show "set hp = insert ?pair (set (sk_heap s) - {rmv})"
    using tracker_invD(1) [OF inv] by simp
  have "length hp = length (?pair # remove1 rmv (sk_heap s))" using ms' by (rule mset_eq_length)
  then show "length hp = length (sk_heap s)" using mem ne by (simp add: length_remove1)
qed

lemma update_heap_evict_inv:
  fixes est :: int
  assumes inv: "tracker_inv s" and nt: "map_of (sk_top_k s) item = None"
    and ne: "sk_heap s \<noteq> []"
    and gt: "\<not> est \<le> fst ((objs s @ [(est, item)]) ! (sk_heap s ! 0))"
    and pp: "heappushpop (entry_key (s\<lparr>objs := objs s @ [(est, item)]\<rparr>)) (sk_heap s)
               (length (objs s)) = (rmv, hp)"
  shows "tracker_inv (s\<lparr>objs := objs s @ [(est, item)], sk_heap := hp,
      sk_top_k := AList.update item (length (objs s))
         (AList.delete (snd ((objs s @ [(est, item)]) ! rmv)) (sk_top_k s))\<rparr>)"
proof -
  let ?os = "objs s @ [(est, item)]"
  let ?pair = "length (objs s)"
  let ?ri = "snd (?os ! rmv)"
  let ?tk = "AList.update item ?pair (AList.delete ?ri (sk_top_k s))"
  let ?s' = "s\<lparr>objs := ?os, sk_heap := hp, sk_top_k := ?tk\<rparr>"
  note r = heappushpop_root [OF inv ne gt pp]
  have old: "?os ! b = objs s ! b" if "b < length (objs s)" for b
    using that by (simp add: nth_append)
  have oldh: "?os ! b = objs s ! b" if "b \<in> set (sk_heap s)" for b
    using old [OF tracker_inv_heap_bound [OF inv that]] .
  have ri: "?ri = snd (objs s ! rmv)" using oldh [OF r(2)] by simp
  have mri: "map_of (sk_top_k s) ?ri = Some rmv"
    unfolding ri by (rule tracker_invD(6) [OF inv r(2)])
  have mo: "map_of ?tk = ((map_of (sk_top_k s))(?ri := None))(item \<mapsto> ?pair)"
    by (simp add: update_conv' delete_conv')
  have ek: "entry_key ?s' = entry_key (s\<lparr>objs := ?os\<rparr>)"
    by (intro ext) (simp add: entry_key_def)
  have c3: "a \<in> set hp \<and> a < length ?os \<and> snd (?os ! a) = i" if "map_of ?tk i = Some a" for i a
  proof (cases "i = item")
    case True
    then have "a = ?pair" using that unfolding mo by simp
    then show ?thesis using True r(4) by simp
  next
    case False
    then have i: "i \<noteq> ?ri" and m: "map_of (sk_top_k s) i = Some a"
      using that unfolding mo by (auto split: if_splits)
    have "a \<noteq> rmv" using tracker_invD(5) [OF inv m] i ri by auto
    then show ?thesis
      using tracker_invD(3,4,5) [OF inv m] r(4) old by simp
  qed
  have c4: "map_of ?tk (snd (?os ! a)) = Some a" if "a \<in> set hp" for a
  proof (cases "a = ?pair")
    case True
    then show ?thesis unfolding mo by simp
  next
    case False
    then have a: "a \<in> set (sk_heap s)" "a \<noteq> rmv" using that r(4) by auto
    have m: "map_of (sk_top_k s) (snd (objs s ! a)) = Some a" by (rule tracker_invD(6) [OF inv a(1)])
    have "snd (objs s ! a) \<noteq> item" using m nt by auto
    moreover have "snd (objs s ! a) \<noteq> ?ri" using m mri a(2) by auto
    ultimately show ?thesis unfolding mo using m oldh [OF a(1)] by simp
  qed
  have c6: "length hp \<le> nat (sk_k s)" using r(6) tracker_invD(8) [OF inv] by simp
  have c2: "distinct (map fst ?tk)"
    using tracker_invD(2) [OF inv] by (simp add: distinct_update distinct_delete)
  show ?thesis
  proof (rule tracker_invI)
    show "distinct (sk_heap ?s')" using r(5) by simp
    show "distinct (map fst (sk_top_k ?s'))" using c2 by simp
    show "is_heap (entry_key ?s') (sk_heap ?s')" using r(3) ek by simp
    show "length (sk_heap ?s') \<le> nat (sk_k ?s')" using c6 by simp
  next
    fix i b
    assume "map_of (sk_top_k ?s') i = Some b"
    then have "map_of ?tk i = Some b" by simp
    from c3 [OF this]
    show "b \<in> set (sk_heap ?s') \<and> b < length (objs ?s') \<and> snd (objs ?s' ! b) = i" by simp
  next
    fix b
    assume "b \<in> set (sk_heap ?s')"
    then have "b \<in> set hp" by simp
    from c4 [OF this]
    show "map_of (sk_top_k ?s') (snd (objs ?s' ! b)) = Some b" by simp
  qed
qed

lemma update_heap_inv:
  assumes "tracker_inv s" and "update_heap h s item = Inr s'"
  shows "tracker_inv s'"
  using assms(2)
proof (cases rule: update_heap_cases)
  case (refresh est a)
  show ?thesis unfolding refresh(3) using assms(1) refresh(2) by (rule update_heap_refresh_inv)
next
  case (insert est)
  show ?thesis unfolding insert(4) using assms(1) insert(2,3) by (rule update_heap_insert_inv)
next
  case (ignore est)
  show ?thesis unfolding ignore(6) using assms(1) by (rule update_heap_ignore_inv)
next
  case (evict est rmv hp)
  show ?thesis unfolding evict(8) using assms(1) evict(2,4,5,6) by (rule update_heap_evict_inv)
qed

lemma tracker_inv_tables [simp]:
  "tracker_inv (s\<lparr>sk_tables := ts\<rparr>) = tracker_inv s"
  "tracker_inv (s\<lparr>sk_n := m\<rparr>) = tracker_inv s"
  by (simp_all add: tracker_inv_def entry_key_def [abs_def])

lemma update_inv:
  assumes "tracker_inv s" and "update h s item cnt = Inr s'"
  shows "tracker_inv s'"
proof -
  obtain e ts where ar: "add_rows cnt (sk_tables s) (hash h s item) = (e, ts)"
    by (cases "add_rows cnt (sk_tables s) (hash h s item)")
  from assms(2) ar have
    "update_heap h (s\<lparr>sk_n := sk_n s + cnt, sk_tables := ts\<rparr>) item = Inr s'"
    by (cases e) (simp_all add: update_def Let_def split: if_splits)
  then show ?thesis using assms(1) by (intro update_heap_inv [of _ h item s']) simp_all
qed

lemma updates_inv:
  "tracker_inv s \<Longrightarrow> updates h s calls = Inr s' \<Longrightarrow> tracker_inv s'"
proof (induction calls arbitrary: s)
  case Nil
  then show ?case by simp
next
  case (Cons call calls)
  obtain item cnt where call: "call = (item, cnt)" by (cases call)
  from Cons.prems(2) call obtain s1 where
    u: "update h s item cnt = Inr s1" and r: "updates h s1 calls = Inr s'"
    by (auto split: sum.splits)
  show ?case by (rule Cons.IH [OF update_inv [OF Cons.prems(1) u] r])
qed

lemma updates_sk_k: "updates h s calls = Inr s' \<Longrightarrow> sk_k s' = sk_k s"
proof (induction calls arbitrary: s)
  case Nil
  then show ?case by simp
next
  case (Cons call calls)
  obtain item cnt where call: "call = (item, cnt)" by (cases call)
  from Cons.prems call obtain s1 where
    u: "update h s item cnt = Inr s1" and r: "updates h s1 calls = Inr s'"
    by (auto split: sum.splits)
  show ?case using Cons.IH [OF r] update_Inr(4) [OF u] by simp
qed

lemma init_inv: "CountMinSketch_init w d k = Inr s \<Longrightarrow> tracker_inv s"
  by (simp add: tracker_inv_def init_Inr is_heap_def heap_from_def)

lemma reached_inv:
  "CountMinSketch_init w d k = Inr s0 \<Longrightarrow> updates h s0 calls = Inr s \<Longrightarrow>
   tracker_inv s \<and> sk_k s = k"
proof -
  assume i: "CountMinSketch_init w d k = Inr s0" and u: "updates h s0 calls = Inr s"
  have "tracker_inv s" using init_inv [OF i] u by (rule updates_inv)
  moreover have "sk_k s = k" using updates_sk_k [OF u] init_Inr(3) [OF i] by simp
  ultimately show ?thesis by simp
qed

section \<open>Consistency, bound and snapshots\<close>

lemma tracker_items:
  assumes "tracker_inv s"
  shows "snd ` set (heap_entries s) = fst ` set (tracked s)"
proof -
  have l: "snd ` set (heap_entries s) = (\<lambda>a. snd (objs s ! a)) ` set (sk_heap s)"
    by (simp add: heap_entries_def image_image)
  have r: "fst ` set (tracked s) = dom (map_of (sk_top_k s))"
    by (force simp: tracked_def dom_map_of_conv_image_fst)
  show ?thesis unfolding l r
  proof (intro equalityI subsetI)
    fix i assume "i \<in> (\<lambda>a. snd (objs s ! a)) ` set (sk_heap s)"
    then obtain a where a: "a \<in> set (sk_heap s)" "i = snd (objs s ! a)" by auto
    from tracker_invD(6) [OF assms a(1)] a(2) show "i \<in> dom (map_of (sk_top_k s))" by auto
  next
    fix i assume "i \<in> dom (map_of (sk_top_k s))"
    then obtain a where m: "map_of (sk_top_k s) i = Some a" by auto
    from tracker_invD(3,5) [OF assms m] show "i \<in> (\<lambda>a. snd (objs s ! a)) ` set (sk_heap s)"
      by force
  qed
qed

lemma tracker_sizes:
  assumes "tracker_inv s"
  shows "length (sk_heap s) = length (sk_top_k s)"
proof -
  let ?f = "\<lambda>a. snd (objs s ! a)"
  have inj: "inj_on ?f (set (sk_heap s))"
  proof (rule inj_onI)
    fix a b assume "a \<in> set (sk_heap s)" "b \<in> set (sk_heap s)" "?f a = ?f b"
    then show "a = b" using tracker_invD(6) [OF assms] by (metis option.inject)
  qed
  have img: "?f ` set (sk_heap s) = fst ` set (sk_top_k s)"
    using tracker_items [OF assms] by (force simp: heap_entries_def tracked_def image_image)
  have "length (sk_heap s) = card (set (sk_heap s))"
    using tracker_invD(1) [OF assms] by (simp add: distinct_card)
  also have "\<dots> = card (?f ` set (sk_heap s))" using inj by (simp add: card_image)
  also have "\<dots> = card (set (map fst (sk_top_k s)))" unfolding img by simp
  also have "\<dots> = length (map fst (sk_top_k s))"
    using tracker_invD(2) [OF assms] by (rule distinct_card)
  finally show ?thesis by simp
qed

text \<open>
  C10. In every state reached from the constructor by calls of \<open>update\<close> that return,
  the items of the heap entries are exactly the keys of the dictionary; every heap entry
  is the value the dictionary holds for its item; every value of the dictionary is an
  entry of the heap carrying its key; the two have the same size, and neither holds an
  address or a key twice.
\<close>

theorem heap_and_index_in_sync:
  assumes "CountMinSketch_init w d k = Inr s0" and "updates h s0 calls = Inr s"
  shows "snd ` set (heap_entries s) = fst ` set (tracked s)
    \<and> (\<forall>a \<in> set (sk_heap s). map_of (sk_top_k s) (snd (objs s ! a)) = Some a)
    \<and> (\<forall>item a. map_of (sk_top_k s) item = Some a \<longrightarrow>
          a \<in> set (sk_heap s) \<and> snd (objs s ! a) = item)
    \<and> length (sk_heap s) = length (sk_top_k s)
    \<and> distinct (sk_heap s) \<and> distinct (map fst (sk_top_k s))"
proof -
  have inv: "tracker_inv s" using reached_inv [OF assms] by simp
  show ?thesis
    using tracker_items [OF inv] tracker_sizes [OF inv] tracker_invD(1,2,3,5,6) [OF inv]
    by blast
qed

theorem heap_and_index_in_sync_witness:
  "(CountMinSketch_init 2 2 2 :: error + int sketch) =
       Inr \<lparr> sk_w = 2, sk_d = 2, sk_k = 2, sk_n = 0, sk_heap = [], sk_top_k = [],
             sk_tables = [[0, 0], [0, 0]], objs = [] \<rparr>
   \<and> updates (\<lambda>item i. nat item + i)
       \<lparr> sk_w = 2, sk_d = 2, sk_k = 2, sk_n = 0, sk_heap = [], sk_top_k = [],
         sk_tables = [[0, 0], [0, 0]], objs = [] \<rparr> [(1 :: int, 5), (3, 3), (2, 7)]
     = Inr \<lparr> sk_w = 2, sk_d = 2, sk_k = 2, sk_n = 15, sk_heap = [2, 1],
           sk_top_k = [(3, 1), (2, 2)], sk_tables = [[7, 8], [8, 7]],
           objs = [(5, 1), (8, 3), (7, 2)] \<rparr>
   \<and> snd ` set (heap_entries \<lparr> sk_w = 2, sk_d = 2, sk_k = 2, sk_n = 15, sk_heap = [2, 1],
           sk_top_k = [(3 :: int, 1), (2, 2)], sk_tables = [[7, 8], [8, 7]],
           objs = [(5, 1), (8, 3), (7, 2)] \<rparr>)
     = fst ` set (tracked \<lparr> sk_w = 2, sk_d = 2, sk_k = 2, sk_n = 15, sk_heap = [2, 1],
           sk_top_k = [(3 :: int, 1), (2, 2)], sk_tables = [[7, 8], [8, 7]],
           objs = [(5, 1), (8, 3), (7, 2)] \<rparr>)
   \<and> length [2 :: nat, 1] = length [(3 :: int, 1 :: nat), (2, 2)]"
proof -
  let ?h = "\<lambda>(item :: int) i. nat item + i"
  let ?init = "\<lparr> sk_w = 2, sk_d = 2, sk_k = 2, sk_n = 0, sk_heap = [], sk_top_k = [],
         sk_tables = [[0, 0], [0, 0]], objs = [] :: (int \<times> int) list \<rparr>"
  let ?final = "\<lparr> sk_w = 2, sk_d = 2, sk_k = 2, sk_n = 15, sk_heap = [2, 1],
           sk_top_k = [(3 :: int, 1), (2, 2)], sk_tables = [[7, 8], [8, 7]],
           objs = [(5, 1), (8, 3), (7, 2)] \<rparr>"
  have built: "CountMinSketch_init 2 2 2 = Inr ?init" by code_simp
  have run: "updates ?h ?init [(1, 5), (3, 3), (2, 7)] = Inr ?final" by code_simp
  from heap_and_index_in_sync [OF built run]
  have "snd ` set (heap_entries ?final) = fst ` set (tracked ?final)"
    and "length (sk_heap ?final) = length (sk_top_k ?final)"
    by blast+
  then show ?thesis using built run by simp
qed

lemma deepcopy_items_keys:
  "deepcopy_items os memo d = (r, os') \<Longrightarrow> map fst r = map fst d"
  by (induction os memo d arbitrary: r os' rule: deepcopy_items.induct)
     (auto simp: Let_def split: option.splits prod.splits)

lemma heavyHitters_keys:
  "map fst (fst (heavyHitters s)) = map fst (sk_top_k s)"
  by (cases "deepcopy_items (objs s) [] (sk_top_k s)")
     (simp add: heavyHitters_def deepcopy_items_keys)

text \<open>
  C8. In every state reached from a sketch constructed with capacity \<open>k\<close> by calls
  of \<open>update\<close> that return, \<open>heavyHitters\<close> returns a dictionary of at most \<open>k\<close>
  entries with pairwise different keys, and the heap holds at most \<open>k\<close> entries.
  (\<open>nat k\<close> is \<open>k\<close> for the capacities \<open>k \<ge> 0\<close>; with a negative capacity the
  tracker stays empty.)
\<close>

theorem heavyHitters_at_most_k:
  assumes "CountMinSketch_init w d k = Inr s0" and "updates h s0 calls = Inr s"
  shows "length (fst (heavyHitters s)) \<le> nat k
    \<and> distinct (map fst (fst (heavyHitters s)))
    \<and> length (sk_heap s) \<le> nat k"
proof -
  have inv: "tracker_inv s" and k: "sk_k s = k" using reached_inv [OF assms] by simp_all
  have "length (fst (heavyHitters s)) = length (map fst (fst (heavyHitters s)))" by simp
  also have "\<dots> = length (sk_top_k s)" unfolding heavyHitters_keys by simp
  also have "\<dots> = length (sk_heap s)" using tracker_sizes [OF inv] by simp
  finally have "length (fst (heavyHitters s)) = length (sk_heap s)" .
  then show ?thesis
    using tracker_invD(2,8) [OF inv] k by (simp add: heavyHitters_keys)
qed

theorem heavyHitters_at_most_k_witness:
  "(CountMinSketch_init 2 2 2 :: error + int sketch) =
       Inr \<lparr> sk_w = 2, sk_d = 2, sk_k = 2, sk_n = 0, sk_heap = [], sk_top_k = [],
             sk_tables = [[0, 0], [0, 0]], objs = [] \<rparr>
   \<and> updates (\<lambda>item i. nat item + i)
       \<lparr> sk_w = 2, sk_d = 2, sk_k = 2, sk_n = 0, sk_heap = [], sk_top_k = [],
         sk_tables = [[0, 0], [0, 0]], objs = [] \<rparr> [(1 :: int, 5), (3, 3), (2, 7)]
     = Inr \<lparr> sk_w = 2, sk_d = 2, sk_k = 2, sk_n = 15, sk_heap = [2, 1],
           sk_top_k = [(3, 1), (2, 2)], sk_tables = [[7, 8], [8, 7]],
           objs = [(5, 1), (8, 3), (7, 2)] \<rparr>
   \<and> length (fst (heavyHitters \<lparr> sk_w = 2, sk_d = 2, sk_k = 2, sk_n = 15, sk_heap = [2, 1],
           sk_top_k = [(3 :: int, 1), (2, 2)], sk_tables = [[7, 8], [8, 7]],
           objs = [(5, 1), (8, 3), (7, 2)] \<rparr>)) \<le> 2"
proof -
  let ?h = "\<lambda>(item :: int) i. nat item + i"
  let ?init = "\<lparr> sk_w = 2, sk_d = 2, sk_k = 2, sk_n = 0, sk_heap = [], sk_top_k = [],
         sk_tables = [[0, 0], [0, 0]], objs = [] :: (int \<times> int) list \<rparr>"
  let ?final = "\<lparr> sk_w = 2, sk_d = 2, sk_k = 2, sk_n = 15, sk_heap = [2, 1],
           sk_top_k = [(3 :: int, 1), (2, 2)], sk_tables = [[7, 8], [8, 7]],
           objs = [(5, 1), (8, 3), (7, 2)] \<rparr>"
  have built: "CountMinSketch_init 2 2 2 = Inr ?init" by code_simp
  have run: "updates ?h ?init [(1, 5), (3, 3), (2, 7)] = Inr ?final" by code_simp
  from heavyHitters_at_most_k [OF built run]
  have "length (fst (heavyHitters ?final)) \<le> nat 2" by blast
  then show ?thesis using built run by simp
qed


lemma deepcopy_items_spec:
  "deepcopy_items os memo d = (r, os') \<Longrightarrow> L \<le> length os \<Longrightarrow>
   \<forall>(item, a) \<in> set d. a < L \<Longrightarrow>
   \<forall>(a, b) \<in> set memo. a < L \<and> L \<le> b \<and> b < length os \<and> os ! b = os ! a \<Longrightarrow>
   (\<exists>ext. os' = os @ ext) \<and> (\<forall>(item, b) \<in> set r. L \<le> b \<and> b < length os')
   \<and> deref os' r = deref os d"
proof (induction os memo d arbitrary: r os' rule: deepcopy_items.induct)
  case (1 os memo)
  then show ?case by (simp add: deref_def)
next
  case (2 os memo item a rest)
  have aL: "a < L" using "2.prems"(3) by simp
  have restL: "\<forall>(item, a) \<in> set rest. a < L" using "2.prems"(3) by simp
  show ?case
  proof (cases "map_of memo a")
    case (Some b)
    obtain r1 where run: "deepcopy_items os memo rest = (r1, os')" and r: "r = (item, b) # r1"
      using "2.prems"(1) Some by (auto split: prod.splits)
    have mb: "L \<le> b \<and> b < length os \<and> os ! b = os ! a"
      using "2.prems"(4) map_of_SomeD [OF Some] by auto
    from "2.IH"(2) [OF Some run "2.prems"(2) restL "2.prems"(4)]
    obtain ext where ih: "os' = os @ ext" "\<forall>(item, b) \<in> set r1. L \<le> b \<and> b < length os'"
      "deref os' r1 = deref os rest"
      by auto
    have "os' ! b = os ! a" using ih(1) mb by (simp add: nth_append)
    then show ?thesis using ih mb r by (auto simp: deref_def)
  next
    case None
    let ?os = "os @ [os ! a]"
    let ?memo = "(a, length os) # memo"
    obtain r1 where run: "deepcopy_items ?os ?memo rest = (r1, os')"
      and r: "r = (item, length os) # r1"
      using "2.prems"(1) None by (auto simp: Let_def split: prod.splits)
    have len: "L \<le> length ?os" using "2.prems"(2) by simp
    have memo: "\<forall>(a, b) \<in> set ?memo. a < L \<and> L \<le> b \<and> b < length ?os \<and> ?os ! b = ?os ! a"
      using "2.prems"(2,4) aL by (auto simp: nth_append)
    from "2.IH"(1) [OF None refl run len restL memo]
    obtain ext where ih: "os' = ?os @ ext" "\<forall>(item, b) \<in> set r1. L \<le> b \<and> b < length os'"
      "deref os' r1 = deref ?os rest"
      by auto
    have same: "deref ?os rest = deref os rest"
      using restL "2.prems"(2) by (auto simp: deref_def nth_append)
    have here: "os' ! length os = os ! a" using ih(1) by (simp add: nth_append)
    have "os' = os @ ([os ! a] @ ext)" using ih(1) by simp
    then have "\<exists>ext. os' = os @ ext" by blast
    then show ?thesis
      using ih(2,3) same here r "2.prems"(2) ih(1) by (auto simp: deref_def)
  qed
qed

lemma mutate_fields [simp]:
  "sk_w (mutate ws s) = sk_w s" "sk_d (mutate ws s) = sk_d s" "sk_k (mutate ws s) = sk_k s"
  "sk_n (mutate ws s) = sk_n s" "sk_heap (mutate ws s) = sk_heap s"
  "sk_top_k (mutate ws s) = sk_top_k s" "sk_tables (mutate ws s) = sk_tables s"
  by (simp_all add: mutate_def)

lemma foldl_writes:
  "\<forall>(a, v) \<in> set ws. L \<le> a \<Longrightarrow>
   length (foldl (\<lambda>os (a, v). os[a := v]) os ws) = length os
   \<and> (\<forall>b < L. foldl (\<lambda>os (a, v). os[a := v]) os ws ! b = os ! b)"
  by (induction ws arbitrary: os) (auto simp: nth_list_update)

lemma estimate_frame:
  "sk_w s' = sk_w s \<Longrightarrow> sk_d s' = sk_d s \<Longrightarrow> sk_tables s' = sk_tables s \<Longrightarrow>
   estimate h s' x = estimate h s x"
  by (simp add: estimate_def hash_raises_def hash_def)

text \<open>
  C7, for the values the code returns. Let \<open>heavyHitters\<close> return the dictionary
  \<open>r\<close> in a state reached by calls that return. Read through the store, \<open>r\<close> sends
  each tracked item to a copy of its entry \<^verbatim>\<open>[estimate, item]\<close>, not to the bare
  estimate; the first component of that entry is the estimate stored for the item. No
  address in \<open>r\<close> is an address the tracker uses. After any sequence of writes to the
  entries \<open>r\<close> points to, a second \<open>heavyHitters\<close> returns the same items with the
  same entries as the tracker held, and \<open>estimate\<close> returns what it returned before.
\<close>

theorem heavyHitters_snapshot_isolated:
  assumes "CountMinSketch_init w d k = Inr s0" and "updates h s0 calls = Inr s"
    and "heavyHitters s = (r, s1)" and "\<forall>(a, v) \<in> set ws. a \<in> snd ` set r"
    and "heavyHitters (mutate ws s1) = (r', s2)"
  shows "deref (objs s1) r = deref (objs s) (sk_top_k s)
    \<and> map (\<lambda>(item, e, _). (item, e)) (deref (objs s1) r) = tracked s
    \<and> snd ` set r \<inter> (set (sk_heap s1) \<union> snd ` set (sk_top_k s1)) = {}
    \<and> deref (objs s2) r' = deref (objs s) (sk_top_k s)
    \<and> estimate h (mutate ws s1) x = estimate h s x"
proof -
  have inv: "tracker_inv s" using reached_inv [OF assms(1,2)] by simp
  let ?L = "length (objs s)"
  have addr: "\<forall>(item, a) \<in> set (sk_top_k s). a < ?L"
  proof (clarify)
    fix item a assume "(item, a) \<in> set (sk_top_k s)"
    then have "map_of (sk_top_k s) item = Some a"
      using tracker_invD(2) [OF inv] by simp
    then show "a < ?L" by (rule tracker_invD(4) [OF inv])
  qed
  obtain os1 where c1: "deepcopy_items (objs s) [] (sk_top_k s) = (r, os1)"
    and s1: "s1 = s\<lparr>objs := os1\<rparr>"
    using assms(3) by (auto simp: heavyHitters_def split: prod.splits)
  from deepcopy_items_spec [OF c1 le_refl addr]
  obtain ext where d1: "os1 = objs s @ ext" "\<forall>(item, b) \<in> set r. ?L \<le> b \<and> b < length os1"
    "deref os1 r = deref (objs s) (sk_top_k s)"
    by auto
  have p1: "deref (objs s1) r = deref (objs s) (sk_top_k s)" using d1(3) s1 by simp
  have p2: "map (\<lambda>(item, e, _). (item, e)) (deref (objs s1) r) = tracked s"
    unfolding p1 by (simp add: deref_def tracked_def case_prod_unfold comp_def)
  have fresh: "?L \<le> b" if "b \<in> snd ` set r" for b using that d1(2) by auto
  have low: "b < ?L" if "b \<in> set (sk_heap s) \<union> snd ` set (sk_top_k s)" for b
    using that addr tracker_inv_heap_bound [OF inv] by auto
  have p3: "snd ` set r \<inter> (set (sk_heap s1) \<union> snd ` set (sk_top_k s1)) = {}"
  proof -
    have "\<not> (b \<in> snd ` set r \<and> b \<in> set (sk_heap s) \<union> snd ` set (sk_top_k s))" for b
      using fresh [of b] low [of b] by linarith
    then show ?thesis unfolding s1 by auto
  qed
  have wr: "\<forall>(a, v) \<in> set ws. ?L \<le> a"
  proof (clarify)
    fix a e i assume "(a, e, i) \<in> set ws"
    then have "a \<in> snd ` set r" using assms(4) by fastforce
    then show "?L \<le> a" by (rule fresh)
  qed
  let ?os = "objs (mutate ws s1)"
  have m: "length ?os = length os1" "\<forall>b < ?L. ?os ! b = os1 ! b"
    using foldl_writes [OF wr, of os1] s1 by (simp_all add: mutate_def)
  obtain os2 where c2: "deepcopy_items ?os [] (sk_top_k s) = (r', os2)"
    and s2: "s2 = (mutate ws s1)\<lparr>objs := os2\<rparr>"
    using assms(5) s1 by (auto simp: heavyHitters_def split: prod.splits)
  have L2: "?L \<le> length ?os" using m(1) d1(1) by simp
  from deepcopy_items_spec [OF c2 L2 addr]
  have "deref os2 r' = deref ?os (sk_top_k s)" by simp
  also have "\<dots> = deref (objs s) (sk_top_k s)"
    using addr m(2) d1(1) by (auto simp: deref_def nth_append)
  finally have p4: "deref (objs s2) r' = deref (objs s) (sk_top_k s)" using s2 by simp
  have p5: "estimate h (mutate ws s1) x = estimate h s x"
    by (rule estimate_frame) (simp_all add: s1)
  show ?thesis using p1 p2 p3 p4 p5 by blast
qed

theorem heavyHitters_snapshot_isolated_witness:
  "(CountMinSketch_init 2 2 2 :: error + int sketch) =
       Inr \<lparr> sk_w = 2, sk_d = 2, sk_k = 2, sk_n = 0, sk_heap = [], sk_top_k = [],
             sk_tables = [[0, 0], [0, 0]], objs = [] \<rparr>
   \<and> updates (\<lambda>item i. nat item + i)
       \<lparr> sk_w = 2, sk_d = 2, sk_k = 2, sk_n = 0, sk_heap = [], sk_top_k = [],
         sk_tables = [[0, 0], [0, 0]], objs = [] \<rparr> [(1 :: int, 5), (3, 3)]
     = Inr \<lparr> sk_w = 2, sk_d = 2, sk_k = 2, sk_n = 8, sk_heap = [0, 1],
           sk_top_k = [(1, 0), (3, 1)], sk_tables = [[0, 8], [8, 0]],
           objs = [(5, 1), (8, 3)] \<rparr>
   \<and> heavyHitters \<lparr> sk_w = 2, sk_d = 2, sk_k = 2, sk_n = 8, sk_heap = [0, 1],
           sk_top_k = [(1 :: int, 0), (3, 1)], sk_tables = [[0, 8], [8, 0]],
           objs = [(5, 1), (8, 3)] \<rparr>
     = ([(1, 2), (3, 3)],
        \<lparr> sk_w = 2, sk_d = 2, sk_k = 2, sk_n = 8, sk_heap = [0, 1],
           sk_top_k = [(1, 0), (3, 1)], sk_tables = [[0, 8], [8, 0]],
           objs = [(5, 1), (8, 3), (5, 1), (8, 3)] \<rparr>)
   \<and> heavyHitters (mutate [(2, (99, 7)), (3, (0, 0))]
        \<lparr> sk_w = 2, sk_d = 2, sk_k = 2, sk_n = 8, sk_heap = [0, 1],
           sk_top_k = [(1 :: int, 0), (3, 1)], sk_tables = [[0, 8], [8, 0]],
           objs = [(5, 1), (8, 3), (5, 1), (8, 3)] \<rparr>)
     = ([(1, 4), (3, 5)],
        \<lparr> sk_w = 2, sk_d = 2, sk_k = 2, sk_n = 8, sk_heap = [0, 1],
           sk_top_k = [(1, 0), (3, 1)], sk_tables = [[0, 8], [8, 0]],
           objs = [(5, 1), (8, 3), (99, 7), (0, 0), (5, 1), (8, 3)] \<rparr>)
   \<and> deref [(5, 1), (8, 3), (99, 7), (0, 0), (5, 1), (8, 3)] [(1 :: int, 4), (3, 5)]
     = deref [(5, 1), (8, 3)] [(1, 0), (3, 1)]
   \<and> estimate (\<lambda>item i. nat item + i)
        (mutate [(2, (99, 7)), (3, (0, 0))]
          \<lparr> sk_w = 2, sk_d = 2, sk_k = 2, sk_n = 8, sk_heap = [0, 1],
            sk_top_k = [(1 :: int, 0), (3, 1)], sk_tables = [[0, 8], [8, 0]],
            objs = [(5, 1), (8, 3), (5, 1), (8, 3)] \<rparr>) 1
     = estimate (\<lambda>item i. nat item + i)
          \<lparr> sk_w = 2, sk_d = 2, sk_k = 2, sk_n = 8, sk_heap = [0, 1],
            sk_top_k = [(1 :: int, 0), (3, 1)], sk_tables = [[0, 8], [8, 0]],
            objs = [(5, 1), (8, 3)] \<rparr> 1"
proof -
  let ?h = "\<lambda>(item :: int) i. nat item + i"
  let ?init = "\<lparr> sk_w = 2, sk_d = 2, sk_k = 2, sk_n = 0, sk_heap = [], sk_top_k = [],
         sk_tables = [[0, 0], [0, 0]], objs = [] :: (int \<times> int) list \<rparr>"
  let ?state = "\<lparr> sk_w = 2, sk_d = 2, sk_k = 2, sk_n = 8, sk_heap = [0, 1],
           sk_top_k = [(1 :: int, 0), (3, 1)], sk_tables = [[0, 8], [8, 0]],
           objs = [(5, 1), (8, 3)] \<rparr>"
  let ?copied = "\<lparr> sk_w = 2, sk_d = 2, sk_k = 2, sk_n = 8, sk_heap = [0, 1],
           sk_top_k = [(1 :: int, 0), (3, 1)], sk_tables = [[0, 8], [8, 0]],
           objs = [(5, 1), (8, 3), (5, 1), (8, 3)] \<rparr>"
  let ?again = "\<lparr> sk_w = 2, sk_d = 2, sk_k = 2, sk_n = 8, sk_heap = [0, 1],
           sk_top_k = [(1 :: int, 0), (3, 1)], sk_tables = [[0, 8], [8, 0]],
           objs = [(5, 1), (8, 3), (99, 7), (0, 0), (5, 1), (8, 3)] \<rparr>"
  let ?ws = "[(2 :: nat, (99 :: int, 7 :: int)), (3, (0, 0))]"
  have built: "CountMinSketch_init 2 2 2 = Inr ?init" by code_simp
  have run: "updates ?h ?init [(1, 5), (3, 3)] = Inr ?state" by code_simp
  have snap: "heavyHitters ?state = ([(1, 2), (3, 3)], ?copied)" by code_simp
  have writes: "\<forall>(a, v) \<in> set ?ws. a \<in> snd ` set [(1 :: int, 2 :: nat), (3, 3)]" by simp
  have snap2: "heavyHitters (mutate ?ws ?copied) = ([(1, 4), (3, 5)], ?again)" by code_simp
  from heavyHitters_snapshot_isolated [OF built run snap writes snap2, where x = 1]
  have "deref (objs ?again) [(1, 4), (3, 5)] = deref (objs ?state) (sk_top_k ?state)"
    and "estimate ?h (mutate ?ws ?copied) 1 = estimate ?h ?state 1"
    by blast+
  then show ?thesis using built run snap snap2 by simp
qed

text \<open>
  C7 as stated fails on the returned values: after \<^verbatim>\<open>update(1, 5)\<close> and
  \<^verbatim>\<open>update(3, 3)\<close> the dictionary that \<open>heavyHitters\<close> returns holds for item
  \<open>1\<close> the entry \<open>(5, 1)\<close>, the list \<^verbatim>\<open>[5, 1]\<close>, where a mapping from items to
  estimates holds \<open>5\<close>.
\<close>

theorem heavyHitters_values_counterexample:
  "updates (\<lambda>item i. nat item + i)
       \<lparr> sk_w = 2, sk_d = 2, sk_k = 2, sk_n = 0, sk_heap = [], sk_top_k = [],
         sk_tables = [[0, 0], [0, 0]], objs = [] \<rparr> [(1 :: int, 5), (3, 3)]
     = Inr \<lparr> sk_w = 2, sk_d = 2, sk_k = 2, sk_n = 8, sk_heap = [0, 1],
           sk_top_k = [(1, 0), (3, 1)], sk_tables = [[0, 8], [8, 0]],
           objs = [(5, 1), (8, 3)] \<rparr>
   \<and> heavyHitters \<lparr> sk_w = 2, sk_d = 2, sk_k = 2, sk_n = 8, sk_heap = [0, 1],
           sk_top_k = [(1 :: int, 0), (3, 1)], sk_tables = [[0, 8], [8, 0]],
           objs = [(5, 1), (8, 3)] \<rparr>
     = ([(1, 2), (3, 3)],
        \<lparr> sk_w = 2, sk_d = 2, sk_k = 2, sk_n = 8, sk_heap = [0, 1],
           sk_top_k = [(1, 0), (3, 1)], sk_tables = [[0, 8], [8, 0]],
           objs = [(5, 1), (8, 3), (5, 1), (8, 3)] \<rparr>)
   \<and> map_of (deref [(5, 1), (8, 3), (5, 1), (8, 3)] [(1 :: int, 2), (3, 3)]) 1 = Some (5, 1)
   \<and> map_of (tracked \<lparr> sk_w = 2, sk_d = 2, sk_k = 2, sk_n = 8, sk_heap = [0, 1],
           sk_top_k = [(1 :: int, 0), (3, 1)], sk_tables = [[0, 8], [8, 0]],
           objs = [(5, 1), (8, 3)] \<rparr>) 1 = Some 5"
proof -
  let ?h = "\<lambda>(item :: int) i. nat item + i"
  let ?init = "\<lparr> sk_w = 2, sk_d = 2, sk_k = 2, sk_n = 0, sk_heap = [], sk_top_k = [],
         sk_tables = [[0, 0], [0, 0]], objs = [] :: (int \<times> int) list \<rparr>"
  let ?state = "\<lparr> sk_w = 2, sk_d = 2, sk_k = 2, sk_n = 8, sk_heap = [0, 1],
           sk_top_k = [(1 :: int, 0), (3, 1)], sk_tables = [[0, 8], [8, 0]],
           objs = [(5, 1), (8, 3)] \<rparr>"
  let ?copied = "\<lparr> sk_w = 2, sk_d = 2, sk_k = 2, sk_n = 8, sk_heap = [0, 1],
           sk_top_k = [(1 :: int, 0), (3, 1)], sk_tables = [[0, 8], [8, 0]],
           objs = [(5, 1), (8, 3), (5, 1), (8, 3)] \<rparr>"
  have run: "updates ?h ?init [(1, 5), (3, 3)] = Inr ?state" by code_simp
  have snap: "heavyHitters ?state = ([(1, 2), (3, 3)], ?copied)" by code_simp
  have val: "map_of (deref [(5, 1), (8, 3), (5, 1), (8, 3)] [(1 :: int, 2), (3, 3)]) 1
      = Some (5 :: int, 1 :: int)"
    by (simp add: deref_def)
  have est: "map_of (tracked ?state) 1 = Some 5" by (simp add: tracked_def)
  show ?thesis using run snap val est by simp
qed

section \<open>Eviction from a full tracker\<close>

lemma tracker_addresses:
  assumes "tracker_inv s"
  shows "snd ` set (sk_top_k s) = set (sk_heap s)"
proof (intro equalityI subsetI)
  fix a assume "a \<in> snd ` set (sk_top_k s)"
  then obtain i where "(i, a) \<in> set (sk_top_k s)" by auto
  then have "map_of (sk_top_k s) i = Some a" using tracker_invD(2) [OF assms] by simp
  then show "a \<in> set (sk_heap s)" by (rule tracker_invD(3) [OF assms])
next
  fix a assume "a \<in> set (sk_heap s)"
  from map_of_SomeD [OF tracker_invD(6) [OF assms this]]
  show "a \<in> snd ` set (sk_top_k s)" by force
qed

lemma map_of_tracked:
  "map_of (tracked s) i = map_option (\<lambda>a. fst (objs s ! a)) (map_of (sk_top_k s) i)"
  by (simp add: tracked_def map_of_map)

lemma tracked_frame [simp]:
  "tracked (s\<lparr>sk_n := m\<rparr>) = tracked s" "tracked (s\<lparr>sk_tables := ts\<rparr>) = tracked s"
  "heap_entries (s\<lparr>sk_n := m\<rparr>) = heap_entries s"
  "heap_entries (s\<lparr>sk_tables := ts\<rparr>) = heap_entries s"
  by (simp_all add: tracked_def heap_entries_def)

lemma tracked_append:
  assumes "tracker_inv s"
  shows "tracked (s\<lparr>objs := objs s @ ext\<rparr>) = tracked s"
    and "heap_entries (s\<lparr>objs := objs s @ ext\<rparr>) = heap_entries s"
proof -
  have "a < length (objs s)" if "(i, a) \<in> set (sk_top_k s)" for i a
    using tracker_addresses [OF assms] tracker_inv_heap_bound [OF assms, of a] that by force
  then show "tracked (s\<lparr>objs := objs s @ ext\<rparr>) = tracked s"
    by (auto simp: tracked_def nth_append)
  show "heap_entries (s\<lparr>objs := objs s @ ext\<rparr>) = heap_entries s"
    using tracker_inv_heap_bound [OF assms] by (auto simp: heap_entries_def nth_append)
qed

lemma min_tracked:
  assumes "tracker_inv s" and "sk_heap s \<noteq> []"
  shows "Min (snd ` set (tracked s)) = fst (objs s ! (sk_heap s ! 0))"
proof (rule Min_eqI)
  have set_eq: "snd ` set (tracked s) = (\<lambda>a. fst (objs s ! a)) ` set (sk_heap s)"
    unfolding tracker_addresses [OF assms(1), symmetric]
    by (force simp: tracked_def)
  show "finite (snd ` set (tracked s))" by simp
  show "fst (objs s ! (sk_heap s ! 0)) \<in> snd ` set (tracked s)"
    unfolding set_eq using assms(2) by (intro imageI) simp
  fix y assume "y \<in> snd ` set (tracked s)"
  then obtain a where a: "a \<in> set (sk_heap s)" "y = fst (objs s ! a)" unfolding set_eq by auto
  then obtain j where j: "j < length (sk_heap s)" "a = sk_heap s ! j" by (auto simp: in_set_conv_nth)
  have "entry_key s (sk_heap s ! 0) \<le> entry_key s (sk_heap s ! j)"
    using tracker_invD(7) [OF assms(1)] j(1) by (rule is_heap_root_least)
  then show "fst (objs s ! (sk_heap s ! 0)) \<le> y"
    unfolding a(2) j(2) by (auto simp: entry_key_def less_eq_prod_def)
qed

lemma update_Inr_heap:
  assumes "update h s item cnt = Inr s'"
  obtains ts where "update_heap h (s\<lparr>sk_n := sk_n s + cnt, sk_tables := ts\<rparr>) item = Inr s'"
proof -
  obtain e ts where ar: "add_rows cnt (sk_tables s) (hash h s item) = (e, ts)"
    by (cases "add_rows cnt (sk_tables s) (hash h s item)")
  from assms ar have
    "update_heap h (s\<lparr>sk_n := sk_n s + cnt, sk_tables := ts\<rparr>) item = Inr s'"
    by (cases e) (simp_all add: update_def Let_def split: if_splits)
  then show ?thesis by (rule that)
qed

text \<open>
  C6. Take a state reached by calls that return, an item that is not tracked, and a
  tracker that holds exactly \<open>sk_k\<close> entries, and let \<open>update\<close> return for that
  item. If the item's new estimate is greater than the least tracked estimate, then an
  entry with that least estimate leaves both the heap and the dictionary, and the new
  entry joins both. If it is less or equal, the heap and the dictionary are as before.
\<close>

theorem full_tracker_evicts_minimum:
  assumes "CountMinSketch_init w d k = Inr s0" and "updates h s0 calls = Inr s"
    and nt: "map_of (sk_top_k s) item = None"
    and full: "int (length (sk_heap s)) = sk_k s"
    and u: "update h s item cnt = Inr s'"
  shows "\<exists>est. estimate h s' item = Inr est \<and>
    (Min (snd ` set (tracked s)) < est \<longrightarrow>
       (\<exists>victim. (victim, Min (snd ` set (tracked s))) \<in> set (tracked s)
          \<and> (Min (snd ` set (tracked s)), victim) \<in> set (heap_entries s)
          \<and> mset (heap_entries s') =
              add_mset (est, item) (mset (heap_entries s) - {#(Min (snd ` set (tracked s)), victim)#})
          \<and> map_of (tracked s') = ((map_of (tracked s))(victim := None))(item \<mapsto> est)))
    \<and> (est \<le> Min (snd ` set (tracked s)) \<longrightarrow>
          tracked s' = tracked s \<and> heap_entries s' = heap_entries s)"
proof -
  have inv0: "tracker_inv s" using reached_inv [OF assms(1,2)] by simp
  from u obtain ts where
    uh: "update_heap h (s\<lparr>sk_n := sk_n s + cnt, sk_tables := ts\<rparr>) item = Inr s'"
    by (rule update_Inr_heap)
  let ?s1 = "s\<lparr>sk_n := sk_n s + cnt, sk_tables := ts\<rparr>"
  let ?m = "Min (snd ` set (tracked s))"
  have inv: "tracker_inv ?s1" using inv0 by simp
  have fr: "sk_tables s' = sk_tables ?s1" "sk_w s' = sk_w ?s1" "sk_d s' = sk_d ?s1"
    using update_heap_frame [of h ?s1 item s', OF disjI1, OF uh] by simp_all
  have est': "estimate h s' item = estimate h ?s1 item"
    using fr by (intro estimate_frame) simp_all
  from uh show ?thesis
  proof (cases rule: update_heap_cases)
    case (refresh est a)
    then show ?thesis using nt by simp
  next
    case (insert est)
    then show ?thesis using full by simp
  next
    case (ignore est)
    have ne: "sk_heap s \<noteq> []" using ignore(4) by simp
    have top: "(objs s @ [(est, item)]) ! (sk_heap s ! 0) = objs s ! (sk_heap s ! 0)"
      using tracker_inv_heap_bound [OF inv0, of "sk_heap s ! 0"] ne by (simp add: nth_append)
    have le: "est \<le> ?m" using ignore(5) top min_tracked [OF inv0 ne] by simp
    have same: "tracked s' = tracked s" "heap_entries s' = heap_entries s"
      unfolding ignore(6) using tracked_append [OF inv, of "[(est, item)]"] by simp_all
    show ?thesis using est' ignore(1) le same by auto
  next
    case (evict est rmv hp)
    have ne: "sk_heap s \<noteq> []" using evict(4) by simp
    let ?os = "objs s @ [(est, item)]"
    let ?pair = "length (objs s)"
    have old: "?os ! b = objs s ! b" if "b \<in> set (sk_heap s)" for b
      using tracker_inv_heap_bound [OF inv0 that] by (simp add: nth_append)
    have gt: "\<not> est \<le> fst (?os ! (sk_heap s ! 0))" using evict(5) by simp
    have pp: "heappushpop (entry_key (s\<lparr>objs := ?os\<rparr>)) (sk_heap s) ?pair = (rmv, hp)"
    proof -
      have "entry_key (?s1\<lparr>objs := objs ?s1 @ [(est, item)]\<rparr>) = entry_key (s\<lparr>objs := ?os\<rparr>)"
        by (intro ext) (simp add: entry_key_def)
      then show ?thesis using evict(6) by simp
    qed
    note r = heappushpop_root [OF inv0 ne gt pp]
    obtain victim where v: "objs s ! rmv = (fst (objs s ! rmv), victim)"
      by (cases "objs s ! rmv") simp
    have m: "fst (objs s ! rmv) = ?m" unfolding r(1) using min_tracked [OF inv0 ne] by simp
    have ent: "objs s ! rmv = (?m, victim)" using v m by simp
    have lt: "?m < est" using gt old [OF r(2)] m r(1) by simp
    have mv: "map_of (sk_top_k s) victim = Some rmv"
      using tracker_invD(6) [OF inv0 r(2)] ent by simp
    have c1: "(victim, ?m) \<in> set (tracked s)"
      using map_of_SomeD [OF mv] ent by (force simp: tracked_def)
    have c2: "(?m, victim) \<in> set (heap_entries s)"
      using r(2) ent by (force simp: heap_entries_def)
    have s': "objs s' = ?os" "sk_heap s' = hp"
      "sk_top_k s' = AList.update item ?pair (AList.delete victim (sk_top_k s))"
      unfolding evict(8) using old [OF r(2)] ent by simp_all
    have c3: "mset (heap_entries s') = add_mset (est, item) (mset (heap_entries s) - {#(?m, victim)#})"
    proof -
      have "mset (heap_entries s') = image_mset (\<lambda>a. ?os ! a) (mset hp)"
        by (simp add: heap_entries_def s')
      also have "\<dots> = add_mset (est, item) (image_mset (\<lambda>a. ?os ! a) (mset (sk_heap s) - {#rmv#}))"
        unfolding r(7) by simp
      also have "image_mset (\<lambda>a. ?os ! a) (mset (sk_heap s) - {#rmv#})
          = image_mset (\<lambda>a. objs s ! a) (mset (sk_heap s) - {#rmv#})"
        by (intro image_mset_cong old) (auto dest: in_diffD)
      also have "\<dots> = image_mset (\<lambda>a. objs s ! a) (mset (sk_heap s)) - {#objs s ! rmv#}"
        using r(2) by (simp add: image_mset_Diff)
      finally show ?thesis by (simp add: heap_entries_def ent)
    qed
    have c4: "map_of (tracked s') = ((map_of (tracked s))(victim := None))(item \<mapsto> est)"
    proof (rule ext)
      fix i
      show "map_of (tracked s') i = (((map_of (tracked s))(victim := None))(item \<mapsto> est)) i"
      proof (cases "i = item \<or> i = victim")
        case True
        then show ?thesis
          by (auto simp: map_of_tracked s' update_conv' delete_conv')
      next
        case False
        have "fst (?os ! a) = fst (objs s ! a)" if "map_of (sk_top_k s) i = Some a" for a
          using old [OF tracker_invD(3) [OF inv0 that]] by simp
        then show ?thesis using False
          by (cases "map_of (sk_top_k s) i") (simp_all add: map_of_tracked s' update_conv' delete_conv')
      qed
    qed
    show ?thesis using est' evict(1) lt c1 c2 c3 c4 by auto
  qed
qed

theorem full_tracker_evicts_minimum_witness:
  "(CountMinSketch_init 2 2 2 :: error + int sketch) =
       Inr \<lparr> sk_w = 2, sk_d = 2, sk_k = 2, sk_n = 0, sk_heap = [], sk_top_k = [],
             sk_tables = [[0, 0], [0, 0]], objs = [] \<rparr>
   \<and> updates (\<lambda>item i. nat item + i)
       \<lparr> sk_w = 2, sk_d = 2, sk_k = 2, sk_n = 0, sk_heap = [], sk_top_k = [],
         sk_tables = [[0, 0], [0, 0]], objs = [] \<rparr> [(1 :: int, 5), (3, 3)]
     = Inr \<lparr> sk_w = 2, sk_d = 2, sk_k = 2, sk_n = 8, sk_heap = [0, 1],
           sk_top_k = [(1, 0), (3, 1)], sk_tables = [[0, 8], [8, 0]],
           objs = [(5, 1), (8, 3)] \<rparr>
   \<and> update (\<lambda>item i. nat item + i)
       \<lparr> sk_w = 2, sk_d = 2, sk_k = 2, sk_n = 8, sk_heap = [0, 1],
         sk_top_k = [(1 :: int, 0), (3, 1)], sk_tables = [[0, 8], [8, 0]],
         objs = [(5, 1), (8, 3)] \<rparr> 2 7
     = Inr \<lparr> sk_w = 2, sk_d = 2, sk_k = 2, sk_n = 15, sk_heap = [2, 1],
           sk_top_k = [(3, 1), (2, 2)], sk_tables = [[7, 8], [8, 7]],
           objs = [(5, 1), (8, 3), (7, 2)] \<rparr>
   \<and> tracked \<lparr> sk_w = 2, sk_d = 2, sk_k = 2, sk_n = 8, sk_heap = [0, 1],
         sk_top_k = [(1 :: int, 0), (3, 1)], sk_tables = [[0, 8], [8, 0]],
         objs = [(5, 1), (8, 3)] \<rparr> = [(1, 5), (3, 8)]
   \<and> estimate (\<lambda>item i. nat item + i)
       \<lparr> sk_w = 2, sk_d = 2, sk_k = 2, sk_n = 15, sk_heap = [2, 1],
         sk_top_k = [(3 :: int, 1), (2, 2)], sk_tables = [[7, 8], [8, 7]],
         objs = [(5, 1), (8, 3), (7, 2)] \<rparr> 2 = Inr 7
   \<and> map_of (tracked \<lparr> sk_w = 2, sk_d = 2, sk_k = 2, sk_n = 15, sk_heap = [2, 1],
         sk_top_k = [(3 :: int, 1), (2, 2)], sk_tables = [[7, 8], [8, 7]],
         objs = [(5, 1), (8, 3), (7, 2)] \<rparr>) = [3 \<mapsto> 8, 2 \<mapsto> 7]"
proof -
  let ?h = "\<lambda>(item :: int) i. nat item + i"
  let ?init = "\<lparr> sk_w = 2, sk_d = 2, sk_k = 2, sk_n = 0, sk_heap = [], sk_top_k = [],
         sk_tables = [[0, 0], [0, 0]], objs = [] :: (int \<times> int) list \<rparr>"
  let ?full = "\<lparr> sk_w = 2, sk_d = 2, sk_k = 2, sk_n = 8, sk_heap = [0, 1],
           sk_top_k = [(1 :: int, 0), (3, 1)], sk_tables = [[0, 8], [8, 0]],
           objs = [(5, 1), (8, 3)] \<rparr>"
  let ?after = "\<lparr> sk_w = 2, sk_d = 2, sk_k = 2, sk_n = 15, sk_heap = [2, 1],
           sk_top_k = [(3 :: int, 1), (2, 2)], sk_tables = [[7, 8], [8, 7]],
           objs = [(5, 1), (8, 3), (7, 2)] \<rparr>"
  have built: "CountMinSketch_init 2 2 2 = Inr ?init" by code_simp
  have run: "updates ?h ?init [(1, 5), (3, 3)] = Inr ?full" by code_simp
  have untracked: "map_of (sk_top_k ?full) 2 = None" by simp
  have full: "int (length (sk_heap ?full)) = sk_k ?full" by simp
  have call: "update ?h ?full 2 7 = Inr ?after" by code_simp
  have tr: "tracked ?full = [(1, 5), (3, 8)]" by (simp add: tracked_def)
  have est: "estimate ?h ?after 2 = Inr 7" by code_simp
  from full_tracker_evicts_minimum [OF built run untracked full call]
  obtain victim where
    "map_of (tracked ?after) = ((map_of (tracked ?full))(victim := None))(2 \<mapsto> 7)"
    and "(victim, 5) \<in> set (tracked ?full)"
    unfolding est tr by auto
  then have "map_of (tracked ?after) = [3 \<mapsto> 8, 2 \<mapsto> 7]"
    unfolding tr by auto
  then show ?thesis using built run call tr est by simp
qed


end
